theory Spec2Isabelle
  imports Complex_Main "HOL-Library.Product_Lexorder" "HOL-Library.AList" "HOL-Library.Multiset"
begin

section \<open>Data model of \<^verbatim>\<open>app.py\<close>\<close>

text \<open>
  The dataclass \<^verbatim>\<open>Proc\<close>: four constructor fields and \<^verbatim>\<open>remaining\<close>, which
  \<^verbatim>\<open>__post_init__\<close> sets to \<^verbatim>\<open>burst\<close>. Python's generated \<^verbatim>\<open>__eq__\<close> compares all five
  fields, which is equality of the record. Python integers are unbounded: \<open>int\<close>.
\<close>

record proc =
  pid :: string
  arrival :: int
  burst :: int
  priority :: int
  remaining :: int

definition Proc :: "string \<Rightarrow> int \<Rightarrow> int \<Rightarrow> int \<Rightarrow> proc" where
  "Proc i a b pr = \<lparr>pid = i, arrival = a, burst = b, priority = pr, remaining = b\<rparr>"

text \<open>The fresh copies every policy but \<^verbatim>\<open>fcfs\<close> starts with:
  \<^verbatim>\<open>[Proc(p.pid, p.arrival, p.burst, p.priority) for p in procs]\<close>.\<close>

definition copies :: "proc list \<Rightarrow> proc list" where
  "copies procs = map (\<lambda>p. Proc (pid p) (arrival p) (burst p) (priority p)) procs"

text \<open>A gantt entry is the tuple \<^verbatim>\<open>(pid, start, end)\<close>.\<close>

type_synonym interval = "string \<times> int \<times> int"
type_synonym gantt = "interval list"

text \<open>
  The exceptions the modelled code can raise: \<^verbatim>\<open>min\<close> of an empty list and
  \<^verbatim>\<open>remove\<close> of an element that is not in the list (ValueError), \<^verbatim>\<open>pop(0)\<close> or
  \<^verbatim>\<open>[0]\<close> on an empty list (IndexError), a dictionary read of a missing key (KeyError),
  arithmetic on \<^verbatim>\<open>None\<close> (TypeError), a quotient of two integers that is too large for
  a float (OverflowError) or has the divisor 0 (ZeroDivisionError). \<open>NoneStart\<close> marks the
  one place where Python would not raise but store \<^verbatim>\<open>None\<close> as the start of a gantt
  tuple (\<^verbatim>\<open>interval_start\<close> read while it is \<^verbatim>\<open>None\<close>).
\<close>

datatype error =
  ValueError | IndexError | KeyError | TypeError | OverflowError | ZeroDivisionError | NoneStart

section \<open>Shared pieces of the policies\<close>

text \<open>
  The admission loop, the same in five policies:
  \<^verbatim>\<open>for p in remaining[:]: if p.arrival <= time: ready.append(p); remaining.remove(p)\<close>.
  It walks a snapshot of the list; \<^verbatim>\<open>remove\<close> deletes the first equal element and
  raises ValueError when there is none.
\<close>

fun admit_loop ::
  "int \<Rightarrow> proc list \<Rightarrow> proc list \<times> proc list \<Rightarrow> error + proc list \<times> proc list" where
  "admit_loop time [] (ready, remaining_list) = Inr (ready, remaining_list)"
| "admit_loop time (p # snapshot) (ready, remaining_list) =
     (if arrival p \<le> time
      then (if p \<in> set remaining_list
            then admit_loop time snapshot (ready @ [p], remove1 p remaining_list)
            else Inl ValueError)
      else admit_loop time snapshot (ready, remaining_list))"

definition admit :: "int \<Rightarrow> proc list \<Rightarrow> proc list \<Rightarrow> error + proc list \<times> proc list" where
  "admit time ready remaining_list = admit_loop time remaining_list (ready, remaining_list)"

text \<open>Python's \<^verbatim>\<open>min(xs, key=f)\<close>: the first element with the least key; ValueError
  (here \<open>None\<close>) on the empty list.\<close>

fun py_min :: "('a \<Rightarrow> 'k::linorder) \<Rightarrow> 'a list \<Rightarrow> 'a option" where
  "py_min f [] = None"
| "py_min f (x # xs) = Some (foldl (\<lambda>m y. if f y < f m then y else m) x xs)"

text \<open>
  A \<^verbatim>\<open>while\<close> loop is the iteration of its body. The body maps the loop's variables
  either to their values at the next test of the loop condition (\<open>Inl\<close>) or to
  what the function returns or raises (\<open>Inr\<close>). A loop that runs forever has
  the value \<open>None\<close>.
\<close>

partial_function (option) iterate :: "('s \<Rightarrow> 's + 'r) \<Rightarrow> 's \<Rightarrow> 'r option" where
  "iterate body s = (case body s of Inl s' \<Rightarrow> iterate body s' | Inr r \<Rightarrow> Some r)"

declare iterate.simps [code]

section \<open>The six policies\<close>

subsection \<open>\<^verbatim>\<open>fcfs\<close>\<close>

text \<open>\<^verbatim>\<open>sorted\<close> is stable, as \<^const>\<open>sort_key\<close> is; the \<^verbatim>\<open>for\<close> loop carries
  \<^verbatim>\<open>time\<close> and \<^verbatim>\<open>gantt\<close>.\<close>

fun fcfs_loop :: "proc list \<Rightarrow> int \<Rightarrow> gantt \<Rightarrow> gantt" where
  "fcfs_loop [] time gantt = gantt"
| "fcfs_loop (p # procs) time gantt =
     (let (gantt, time) =
            (if time < arrival p then (gantt @ [(''idle'', time, arrival p)], arrival p)
             else (gantt, time));
          start = time;
          endt = time + burst p
      in fcfs_loop procs endt (gantt @ [(pid p, start, endt)]))"

definition fcfs :: "proc list \<Rightarrow> gantt" where
  "fcfs procs = fcfs_loop (sort_key arrival procs) 0 []"

subsection \<open>\<^verbatim>\<open>sjf_nonpreemptive\<close> and \<^verbatim>\<open>priority_nonpreemptive\<close>\<close>

text \<open>The loop variables are \<^verbatim>\<open>time\<close>, \<^verbatim>\<open>gantt\<close>, \<^verbatim>\<open>ready\<close> and the list
  \<^verbatim>\<open>remaining\<close> (here \<open>remaining_list\<close>, the field of \<^typ>\<open>proc\<close> has the name).\<close>

type_synonym np_state = "int \<times> gantt \<times> proc list \<times> proc list"

text \<open>Lines 47 to 58. The idle branch calls \<^verbatim>\<open>min\<close> without testing the list.\<close>

fun sjf_nonpreemptive_body :: "np_state \<Rightarrow> np_state + (error + gantt)" where
  "sjf_nonpreemptive_body (time, gantt, ready, remaining_list) =
     (if remaining_list = [] \<and> ready = [] then Inr (Inr gantt)
      else case admit time ready remaining_list of
        Inl e \<Rightarrow> Inr (Inl e)
      | Inr (ready, remaining_list) \<Rightarrow>
        if ready = [] then
          (case py_min arrival remaining_list of
             None \<Rightarrow> Inr (Inl ValueError)
           | Some m \<Rightarrow> let next_t = arrival m
                       in Inl (next_t, gantt @ [(''idle'', time, next_t)], ready, remaining_list))
        else
          (case sort_key (\<lambda>x. (burst x, arrival x)) ready of
             [] \<Rightarrow> Inr (Inl IndexError)
           | p # ready \<Rightarrow>
               let start = time; endt = time + burst p
               in Inl (endt, gantt @ [(pid p, start, endt)], ready, remaining_list)))"

definition sjf_nonpreemptive :: "proc list \<Rightarrow> (error + gantt) option" where
  "sjf_nonpreemptive procs = iterate sjf_nonpreemptive_body (0, [], [], copies procs)"

text \<open>Lines 130 to 143, with the sort key as a parameter. The idle branch is guarded by
  \<^verbatim>\<open>if remaining:\<close> and the loop ends with \<^verbatim>\<open>break\<close> otherwise.\<close>

fun nonpreemptive_body :: "(proc \<Rightarrow> 'k::linorder) \<Rightarrow> np_state \<Rightarrow> np_state + (error + gantt)" where
  "nonpreemptive_body key (time, gantt, ready, remaining_list) =
     (if remaining_list = [] \<and> ready = [] then Inr (Inr gantt)
      else case admit time ready remaining_list of
        Inl e \<Rightarrow> Inr (Inl e)
      | Inr (ready, remaining_list) \<Rightarrow>
        if ready = [] then
          (if remaining_list \<noteq> [] then
             (case py_min arrival remaining_list of
                None \<Rightarrow> Inr (Inl ValueError)
              | Some m \<Rightarrow> let nxt = arrival m
                          in Inl (nxt, gantt @ [(''idle'', time, nxt)], ready, remaining_list))
           else Inr (Inr gantt))
        else
          (case sort_key key ready of
             [] \<Rightarrow> Inr (Inl IndexError)
           | p # ready \<Rightarrow>
               let start = time; endt = time + burst p
               in Inl (endt, gantt @ [(pid p, start, endt)], ready, remaining_list)))"

definition priority_nonpreemptive :: "proc list \<Rightarrow> (error + gantt) option" where
  "priority_nonpreemptive procs =
     iterate (nonpreemptive_body (\<lambda>x. (priority x, arrival x))) (0, [], [], copies procs)"

subsection \<open>\<^verbatim>\<open>round_robin\<close>\<close>

text \<open>Lines 103 to 124; the loop variables are \<^verbatim>\<open>time\<close>, \<^verbatim>\<open>gantt\<close>, \<^verbatim>\<open>queue\<close> and
  \<^verbatim>\<open>remaining\<close>. The popped object is in no list while it is mutated.\<close>

fun round_robin_body :: "int \<Rightarrow> np_state \<Rightarrow> np_state + (error + gantt)" where
  "round_robin_body quantum (time, gantt, queue, remaining_list) =
     (if remaining_list = [] \<and> queue = [] then Inr (Inr gantt)
      else case admit time queue remaining_list of
        Inl e \<Rightarrow> Inr (Inl e)
      | Inr (queue, remaining_list) \<Rightarrow>
        (case queue of
           [] \<Rightarrow>
             (if remaining_list \<noteq> [] then
                (case py_min arrival remaining_list of
                   None \<Rightarrow> Inr (Inl ValueError)
                 | Some m \<Rightarrow> let nxt = arrival m
                             in Inl (nxt, gantt @ [(''idle'', time, nxt)], queue, remaining_list))
              else Inr (Inr gantt))
         | p # queue \<Rightarrow>
             if remaining p \<le> 0 then Inl (time, gantt, queue, remaining_list)
             else
               let run = min quantum (remaining p);
                   start = time;
                   endt = time + run;
                   gantt = gantt @ [(pid p, start, endt)];
                   p = p\<lparr>remaining := remaining p - run\<rparr>;
                   time = endt
               in case admit time queue remaining_list of
                    Inl e \<Rightarrow> Inr (Inl e)
                  | Inr (queue, remaining_list) \<Rightarrow>
                      Inl (time, gantt, (if remaining p > 0 then queue @ [p] else queue),
                           remaining_list)))"

definition round_robin :: "proc list \<Rightarrow> int \<Rightarrow> (error + gantt) option" where
  "round_robin procs quantum = iterate (round_robin_body quantum) (0, [], [], copies procs)"

subsection \<open>\<^verbatim>\<open>sjf_preemptive\<close> and \<^verbatim>\<open>priority_preemptive\<close>\<close>

text \<open>
  Lines 69 to 94 and 150 to 170 are the same statements but for the sort key, which is the
  parameter here. The loop variables are \<^verbatim>\<open>time\<close>, \<^verbatim>\<open>gantt\<close>, \<^verbatim>\<open>ready\<close>,
  \<^verbatim>\<open>remaining\<close>, \<^verbatim>\<open>current\<close> and \<^verbatim>\<open>interval_start\<close>.

  Objects are modelled by their values. The one identity test, \<^verbatim>\<open>chosen is not current\<close>,
  is decided by a flag each candidate carries: \<open>True\<close> for the entry \<^verbatim>\<open>[current]\<close> appended
  to \<^verbatim>\<open>ready\<close>, \<open>False\<close> for the entries of \<^verbatim>\<open>ready\<close>. The sort is stable, so the head of
  the sorted candidates is the first candidate of least key: when it is an entry of
  \<^verbatim>\<open>ready\<close>, \<^verbatim>\<open>ready.remove(chosen)\<close> deletes that very entry (an equal earlier one would
  have the same key), and when it is \<^verbatim>\<open>current\<close>, no entry of \<^verbatim>\<open>ready\<close> equals it. Hence
  the object that is mutated is in no list, and values are enough.
\<close>

type_synonym p_state = "int \<times> gantt \<times> proc list \<times> proc list \<times> proc option \<times> int option"

text \<open>Lines 82 and 83:
  \<^verbatim>\<open>if current is not None and chosen.pid != current.pid:
    gantt.append((current.pid, interval_start, time)); interval_start = None\<close>.\<close>

fun close_interval ::
  "proc option \<Rightarrow> proc \<Rightarrow> int option \<Rightarrow> int \<Rightarrow> gantt \<Rightarrow> error + gantt \<times> int option" where
  "close_interval None chosen interval_start time gantt = Inr (gantt, interval_start)"
| "close_interval (Some c) chosen interval_start time gantt =
     (if pid chosen \<noteq> pid c then
        (case interval_start of
           None \<Rightarrow> Inl NoneStart
         | Some s \<Rightarrow> Inr (gantt @ [(pid c, s, time)], None))
      else Inr (gantt, interval_start))"

text \<open>Lines 73 to 94, what a pass of the loop does after the admission.\<close>

fun preemptive_tick :: "(proc \<Rightarrow> 'k::linorder) \<Rightarrow> p_state \<Rightarrow> p_state + (error + gantt)" where
  "preemptive_tick key (time, gantt, ready, remaining_list, current, interval_start) =
     (let candidates = map (Pair False) ready @
                         (case current of None \<Rightarrow> [] | Some c \<Rightarrow> [(True, c)])
      in if candidates = [] then
           (if remaining_list \<noteq> [] then
              (case py_min arrival remaining_list of
                 None \<Rightarrow> Inr (Inl ValueError)
               | Some m \<Rightarrow> let nxt = arrival m
                           in Inl (nxt, gantt @ [(''idle'', time, nxt)],
                                   ready, remaining_list, current, interval_start))
            else Inr (Inr gantt))
         else
           (case sort_key (\<lambda>x. key (snd x)) candidates of
              [] \<Rightarrow> Inr (Inl IndexError)
            | (is_current, chosen) # _ \<Rightarrow>
                (case close_interval current chosen interval_start time gantt of
                   Inl e \<Rightarrow> Inr (Inl e)
                 | Inr (gantt, interval_start) \<Rightarrow>
                     let ready = (if chosen \<in> set ready then remove1 chosen ready else ready);
                         interval_start = (if \<not> is_current then Some time else interval_start);
                         current = chosen\<lparr>remaining := remaining chosen - 1\<rparr>;
                         time = time + 1
                     in if remaining current = 0 then
                          (case interval_start of
                             None \<Rightarrow> Inr (Inl NoneStart)
                           | Some s \<Rightarrow> Inl (time, gantt @ [(pid current, s, time)],
                                            ready, remaining_list, None, None))
                        else Inl (time, gantt, ready, remaining_list,
                                  Some current, interval_start))))"

text \<open>Lines 69 to 72, the loop condition and the admission, then the rest of the pass.\<close>

fun preemptive_body :: "(proc \<Rightarrow> 'k::linorder) \<Rightarrow> p_state \<Rightarrow> p_state + (error + gantt)" where
  "preemptive_body key (time, gantt, ready, remaining_list, current, interval_start) =
     (if remaining_list = [] \<and> ready = [] \<and> current = None then Inr (Inr gantt)
      else case admit time ready remaining_list of
        Inl e \<Rightarrow> Inr (Inl e)
      | Inr (ready, remaining_list) \<Rightarrow>
          preemptive_tick key (time, gantt, ready, remaining_list, current, interval_start))"

definition sjf_preemptive :: "proc list \<Rightarrow> (error + gantt) option" where
  "sjf_preemptive procs =
     iterate (preemptive_body (\<lambda>x. (remaining x, arrival x)))
       (0, [], [], copies procs, None, None)"

definition priority_preemptive :: "proc list \<Rightarrow> (error + gantt) option" where
  "priority_preemptive procs =
     iterate (preemptive_body (\<lambda>x. (priority x, arrival x, remaining x)))
       (0, [], [], copies procs, None, None)"

section \<open>Metrics\<close>

text \<open>
  A descriptor is the dictionary \<^verbatim>\<open>{'pid', 'arrival', 'burst', 'priority'}\<close> that
  \<^verbatim>\<open>simulate\<close> builds from one line of the form; its values are already integers, so
  the \<^verbatim>\<open>int(...)\<close> of line 178 changes nothing.
\<close>

record desc =
  d_pid :: string
  d_arrival :: int
  d_burst :: int
  d_priority :: int

record info =
  i_arrival :: int
  i_burst :: int
  i_priority :: int

record row =
  r_pid :: string
  r_arrival :: int
  r_burst :: int
  r_start :: "int option"
  r_completion :: "int option"
  r_TAT :: "int option"
  r_WT :: "int option"
  r_RT :: "int option"
  r_priority :: int

text \<open>
  Line 178, the dictionary comprehension: a dictionary keeps its keys in the order of
  their first insertion, and a later descriptor of the same pid replaces the value in
  place. That is \<^const>\<open>AList.update\<close> on an association list.
\<close>

definition build_info :: "desc list \<Rightarrow> (string \<times> info) list" where
  "build_info proc_desc =
     foldl (\<lambda>d p. AList.update (d_pid p)
              \<lparr>i_arrival = d_arrival p, i_burst = d_burst p, i_priority = d_priority p\<rparr> d)
       [] proc_desc"

text \<open>Lines 179 and 180: every key of \<^verbatim>\<open>info\<close> mapped to \<^verbatim>\<open>None\<close>.\<close>

definition none_for :: "(string \<times> info) list \<Rightarrow> (string \<rightharpoonup> int option)" where
  "none_for d = map_of (map (\<lambda>(k, _). (k, None)) d)"

text \<open>Lines 181 to 185. Reading \<^verbatim>\<open>starts[pid]\<close> raises KeyError for a pid that is no
  key; the assignment to \<^verbatim>\<open>completions[pid]\<close> cannot fail.\<close>

fun scan_gantt ::
  "gantt \<Rightarrow> (string \<rightharpoonup> int option) \<Rightarrow> (string \<rightharpoonup> int option) \<Rightarrow>
     error + (string \<rightharpoonup> int option) \<times> (string \<rightharpoonup> int option)" where
  "scan_gantt [] starts completions = Inr (starts, completions)"
| "scan_gantt ((a, s, e) # g) starts completions =
     (if a = ''idle'' then scan_gantt g starts completions
      else case starts a of
        None \<Rightarrow> Inl KeyError
      | Some v \<Rightarrow>
          scan_gantt g (if v = None then starts(a \<mapsto> Some s) else starts)
            (completions(a \<mapsto> Some e)))"

text \<open>Lines 187 to 197, one pass of the loop over \<^verbatim>\<open>info.items()\<close>.\<close>

definition make_row ::
  "(string \<rightharpoonup> int option) \<Rightarrow> (string \<rightharpoonup> int option) \<Rightarrow> string \<times> info \<Rightarrow> error + row" where
  "make_row starts completions item =
     (case item of (k, d) \<Rightarrow>
        (case starts k of
           None \<Rightarrow> Inl KeyError
         | Some st \<Rightarrow>
             (case completions k of
                None \<Rightarrow> Inl KeyError
              | Some co \<Rightarrow>
                  (case (st, co) of
                     (Some st', Some co') \<Rightarrow>
                       let tat = co' - i_arrival d;
                           wt = tat - i_burst d;
                           rt = st' - i_arrival d
                       in Inr \<lparr>r_pid = k, r_arrival = i_arrival d, r_burst = i_burst d,
                                r_start = Some st', r_completion = Some co',
                                r_TAT = Some tat, r_WT = Some wt, r_RT = Some rt,
                                r_priority = i_priority d\<rparr>
                   | _ \<Rightarrow>
                       Inr \<lparr>r_pid = k, r_arrival = i_arrival d, r_burst = i_burst d,
                             r_start = None, r_completion = None,
                             r_TAT = None, r_WT = None, r_RT = None,
                             r_priority = i_priority d\<rparr>))))"

fun make_rows ::
  "(string \<rightharpoonup> int option) \<Rightarrow> (string \<rightharpoonup> int option) \<Rightarrow> (string \<times> info) list \<Rightarrow>
     error + row list" where
  "make_rows starts completions [] = Inr []"
| "make_rows starts completions (item # items) =
     (case make_row starts completions item of
        Inl e \<Rightarrow> Inl e
      | Inr r \<Rightarrow>
          (case make_rows starts completions items of
             Inl e \<Rightarrow> Inl e
           | Inr rs \<Rightarrow> Inr (r # rs)))"

text \<open>
  Lines 199 to 202. \<^verbatim>\<open>sum\<close> adds from the left and raises TypeError at a
  \<^verbatim>\<open>None\<close>.
\<close>

fun py_sum :: "int option list \<Rightarrow> error + int" where
  "py_sum [] = Inr 0"
| "py_sum (None # xs) = Inl TypeError"
| "py_sum (Some v # xs) = (case py_sum xs of Inl e \<Rightarrow> Inl e | Inr t \<Rightarrow> Inr (v + t))"

text \<open>
  The quotient \<^verbatim>\<open>sum(...)/len(completed)\<close> is Python's true division of two integers.
  Its value is a float, an IEEE 754 binary64 number: the exact quotient rounded to the
  nearest such number, a tie going to the one with the even significand. The division
  raises OverflowError when the rounded quotient is 2^1024 or more in magnitude, and
  ZeroDivisionError when the divisor is 0. A float is modelled by its value, a rational
  number; the negative zero, a float of its own with the value of \<^verbatim>\<open>0.0\<close>, is kept apart.
\<close>

datatype pyfloat = Double rat | NegZero

text \<open>\<^verbatim>\<open>int.bit_length\<close>: the number of binary digits of a natural number.\<close>

fun bit_length :: "nat \<Rightarrow> nat" where
  "bit_length n = (if n = 0 then 0 else Suc (bit_length (n div 2)))"

declare bit_length.simps [simp del]

text \<open>The power of 2 with an integer exponent.\<close>

definition pow2 :: "int \<Rightarrow> rat" where
  "pow2 e = (if 0 \<le> e then 2 ^ nat e else 1 / 2 ^ nat (- e))"

text \<open>The binade of a positive rational \<open>q\<close>: the integer \<open>e\<close> with
  \<open>2^e \<le> q < 2^(e+1)\<close>.\<close>

definition binade :: "rat \<Rightarrow> int" where
  "binade q = (if 1 \<le> q then int (bit_length (nat \<lfloor>q\<rfloor>)) - 1
               else - int (bit_length (nat (\<lceil>1 / q\<rceil> - 1))))"

text \<open>Rounding to the nearest integer, a tie to the even one.\<close>

definition round_half_even :: "rat \<Rightarrow> int" where
  "round_half_even x =
     (let n = \<lfloor>x\<rfloor>; r = x - of_int n
      in if r < 1 / 2 then n else if 1 / 2 < r then n + 1 else if even n then n else n + 1)"

text \<open>
  A binary64 number has a significand of 53 bits, and its exponent is not below
  \<open>-1022\<close>: the doubles next to \<open>q\<close> are the multiples of \<open>double_ulp q\<close>, and the
  nearest of them is \<open>double_mantissa q\<close> times \<open>double_ulp q\<close>, with the sign of \<open>q\<close>.
\<close>

definition double_exponent :: "rat \<Rightarrow> int" where
  "double_exponent q = max (binade \<bar>q\<bar>) (- 1022)"

definition double_ulp :: "rat \<Rightarrow> rat" where
  "double_ulp q = pow2 (double_exponent q - 52)"

definition double_mantissa :: "rat \<Rightarrow> int" where
  "double_mantissa q = round_half_even (\<bar>q\<bar> / double_ulp q)"

definition round_to_double :: "rat \<Rightarrow> error + pyfloat" where
  "round_to_double q =
     (if q = 0 then Inr (Double 0)
      else let v = of_int (double_mantissa q) * double_ulp q
           in if pow2 1024 \<le> v then Inl OverflowError
              else if v = 0 then Inr (if q < 0 then NegZero else Double 0)
              else Inr (Double (if q < 0 then - v else v)))"

text \<open>\<^verbatim>\<open>a / b\<close> for two integers. A zero dividend gives the zero with the sign of the
  divisor.\<close>

definition int_true_divide :: "int \<Rightarrow> int \<Rightarrow> error + pyfloat" where
  "int_true_divide a b =
     (if b = 0 then Inl ZeroDivisionError
      else if a = 0 then Inr (if b < 0 then NegZero else Double 0)
      else round_to_double (of_int a / of_int b))"

text \<open>\<^verbatim>\<open>sum(r[field] for r in completed)/len(completed) if completed else None\<close>.\<close>

definition average :: "(row \<Rightarrow> int option) \<Rightarrow> row list \<Rightarrow> error + pyfloat option" where
  "average field completed =
     (if completed \<noteq> [] then
        (case py_sum (map field completed) of
           Inl e \<Rightarrow> Inl e
         | Inr t \<Rightarrow>
             (case int_true_divide t (int (length completed)) of
                Inl e \<Rightarrow> Inl e
              | Inr x \<Rightarrow> Inr (Some x)))
      else Inr None)"

record avgs =
  avg_tat :: "pyfloat option"
  avg_wt :: "pyfloat option"
  avg_rt :: "pyfloat option"

definition compute_metrics_from_gantt :: "desc list \<Rightarrow> gantt \<Rightarrow> error + row list \<times> avgs" where
  "compute_metrics_from_gantt proc_desc gantt =
     (let d = build_info proc_desc in
      case scan_gantt gantt (none_for d) (none_for d) of
        Inl e \<Rightarrow> Inl e
      | Inr (starts, completions) \<Rightarrow>
          (case make_rows starts completions d of
             Inl e \<Rightarrow> Inl e
           | Inr rows \<Rightarrow>
               let completed = filter (\<lambda>r. r_TAT r \<noteq> None) rows in
               (case average r_TAT completed of
                  Inl e \<Rightarrow> Inl e
                | Inr a_tat \<Rightarrow>
                    (case average r_WT completed of
                       Inl e \<Rightarrow> Inl e
                     | Inr a_wt \<Rightarrow>
                         (case average r_RT completed of
                            Inl e \<Rightarrow> Inl e
                          | Inr a_rt \<Rightarrow>
                              Inr (rows, \<lparr>avg_tat = a_tat, avg_wt = a_wt,
                                           avg_rt = a_rt\<rparr>))))))"

section \<open>\<^verbatim>\<open>simulate\<close>\<close>

text \<open>Lines 239 to 252, the choice of the algorithm; the last branch is the \<^verbatim>\<open>else\<close>.\<close>

definition select_algorithm :: "string \<Rightarrow> int \<Rightarrow> proc list \<Rightarrow> (error + gantt) option" where
  "select_algorithm algorithm quantum proc_objs =
     (if algorithm = ''fcfs'' then Some (Inr (fcfs proc_objs))
      else if algorithm = ''sjf-np'' then sjf_nonpreemptive proc_objs
      else if algorithm = ''sjf-p'' then sjf_preemptive proc_objs
      else if algorithm = ''rr'' then round_robin proc_objs quantum
      else if algorithm = ''priority-np'' then priority_nonpreemptive proc_objs
      else if algorithm = ''priority-p'' then priority_preemptive proc_objs
      else Some (Inr (fcfs proc_objs)))"

text \<open>
  \<^verbatim>\<open>simulate\<close> from line 235 on, given the descriptors, the algorithm key and the
  quantum read from the form (reading the form and rendering the page are not modelled).
  \<open>procs_of\<close> is line 236. The result is the gantt, the rows and the averages handed
  to the template.
\<close>

definition procs_of :: "desc list \<Rightarrow> proc list" where
  "procs_of proc_desc =
     map (\<lambda>d. Proc (d_pid d) (d_arrival d) (d_burst d) (d_priority d)) proc_desc"

definition simulate ::
  "desc list \<Rightarrow> string \<Rightarrow> int \<Rightarrow> (error + gantt \<times> row list \<times> avgs) option" where
  "simulate proc_desc algorithm quantum =
     (let proc_objs = procs_of proc_desc
      in case select_algorithm algorithm quantum proc_objs of
           None \<Rightarrow> None
         | Some (Inl e) \<Rightarrow> Some (Inl e)
         | Some (Inr gantt) \<Rightarrow>
             (case compute_metrics_from_gantt proc_desc gantt of
                Inl e \<Rightarrow> Some (Inl e)
              | Inr (rows, a) \<Rightarrow> Some (Inr (gantt, rows, a))))"

section \<open>Notions the properties are stated with\<close>

text \<open>The time the timeline gives to an actor: the sum of \<open>end - start\<close> over the
  intervals that carry its name.\<close>

definition run_time :: "string \<Rightarrow> gantt \<Rightarrow> int" where
  "run_time x g = sum_list (map (\<lambda>(a, s, e). e - s) (filter (\<lambda>(a, s, e). a = x) g))"

text \<open>The six keys of the policy selector.\<close>

definition policy_keys :: "string list" where
  "policy_keys = [''fcfs'', ''sjf-np'', ''sjf-p'', ''rr'', ''priority-np'', ''priority-p'']"

text \<open>
  The termination measure of the Round Robin loop: the work left in both lists, each
  process counted once more than its remaining time, and one more step when the next
  pass can only jump over an idle gap.
\<close>

definition work :: "proc list \<Rightarrow> nat" where
  "work xs = sum_list (map (\<lambda>p. nat (remaining p) + 1) xs)"

definition rr_measure :: "np_state \<Rightarrow> nat" where
  "rr_measure s = (case s of (time, gantt, queue, remaining_list) \<Rightarrow>
     2 * (work queue + work remaining_list) +
       (if queue = [] \<and> (\<forall>p\<in>set remaining_list. time < arrival p) then 1 else 0))"

text \<open>The input the policies are specified for: integer arrivals from 0 on, positive
  bursts, pids that are not empty and differ from each other.\<close>

definition well_formed :: "proc list \<Rightarrow> bool" where
  "well_formed procs \<longleftrightarrow>
     (\<forall>p\<in>set procs. 0 \<le> arrival p \<and> 0 < burst p \<and> pid p \<noteq> []) \<and> distinct (map pid procs)"

text \<open>A timeline that starts at \<open>t\<close>: every interval has \<open>start < end\<close> and starts
  where the one before it ends. \<open>gantt_end t g\<close> is where it ends.\<close>

fun contiguous_from :: "int \<Rightarrow> gantt \<Rightarrow> bool" where
  "contiguous_from t [] = True"
| "contiguous_from t ((a, s, e) # g) = (s = t \<and> s < e \<and> contiguous_from e g)"

fun gantt_end :: "int \<Rightarrow> gantt \<Rightarrow> int" where
  "gantt_end t [] = t"
| "gantt_end t ((a, s, e) # g) = gantt_end e g"

text \<open>The earliest arrival after \<open>t\<close>.\<close>

definition next_arrival :: "proc list \<Rightarrow> int \<Rightarrow> int" where
  "next_arrival procs t = Min (arrival ` {p \<in> set procs. t < arrival p})"

text \<open>
  What justifies an interval, given the timeline \<open>before\<close> it. An \<open>idle\<close> interval: every
  process that has arrived by its start has had its whole burst, some process has not
  arrived yet, and the interval ends at the earliest arrival still to come. Any other
  interval: its actor is a process that has arrived and has not had its whole burst.
\<close>

fun interval_justified :: "proc list \<Rightarrow> gantt \<Rightarrow> interval \<Rightarrow> bool" where
  "interval_justified procs before (a, s, e) =
     (if a = ''idle''
      then (\<forall>p\<in>set procs. arrival p \<le> s \<longrightarrow> run_time (pid p) before = burst p) \<and>
           (\<exists>p\<in>set procs. s < arrival p) \<and> e = next_arrival procs s
      else (\<exists>p\<in>set procs. pid p = a \<and> arrival p \<le> s \<and> run_time a before < burst p))"

fun timeline_justified :: "proc list \<Rightarrow> gantt \<Rightarrow> gantt \<Rightarrow> bool" where
  "timeline_justified procs before [] = True"
| "timeline_justified procs before (iv # g) =
     (interval_justified procs before iv \<and> timeline_justified procs (before @ [iv]) g)"

text \<open>An interval that carries no pid starts before some process arrives: the
  timeline never waits for nothing.\<close>

definition gaps_wait :: "proc list \<Rightarrow> gantt \<Rightarrow> bool" where
  "gaps_wait P g \<longleftrightarrow> (\<forall>(a, s, e)\<in>set g. a \<in> pid ` set P \<or> (\<exists>p\<in>set P. s < arrival p))"

text \<open>
  The invariant of the loops that run a process only from a list: \<open>P\<close> are the fresh
  copies, \<open>t\<close> the clock, \<open>g\<close> the timeline so far and \<open>L\<close> the processes still held
  in a list, with their current \<^verbatim>\<open>remaining\<close>.
\<close>

definition proper :: "proc list \<Rightarrow> bool" where
  "proper P \<longleftrightarrow> distinct (map pid P) \<and> (\<forall>p\<in>set P. remaining p = burst p \<and> 0 < burst p)"

definition sched_inv :: "proc list \<Rightarrow> int \<Rightarrow> gantt \<Rightarrow> proc set \<Rightarrow> bool" where
  "sched_inv P t g L \<longleftrightarrow>
     contiguous_from 0 g \<and> gantt_end 0 g = t \<and>
     (\<forall>(a, s, e)\<in>set g. a = ''idle'' \<or> a \<in> pid ` set P) \<and>
     inj_on pid L \<and>
     (\<forall>q\<in>L. 0 < remaining q \<and> remaining q \<le> burst q \<and> q\<lparr>remaining := burst q\<rparr> \<in> set P) \<and>
     (\<forall>q\<in>L. pid q \<noteq> ''idle'' \<longrightarrow> run_time (pid q) g = burst q - remaining q) \<and>
     (\<forall>p\<in>set P. pid p \<notin> pid ` L \<longrightarrow>
        arrival p \<le> t \<and> (pid p \<noteq> ''idle'' \<longrightarrow> run_time (pid p) g = burst p) \<and>
        (\<exists>s e. (pid p, s, e) \<in> set g \<and> arrival p \<le> s)) \<and>
     (''idle'' \<notin> pid ` set P \<longrightarrow> timeline_justified P [] g) \<and>
     gaps_wait P g"

text \<open>The invariant of a loop with two lists, at the test of the loop condition: what
  the two lists hold is what is still to run, no pid is held twice, and what is in the
  first list has arrived.\<close>

definition list_inv :: "proc list \<Rightarrow> np_state \<Rightarrow> bool" where
  "list_inv P s = (case s of (time, gantt, ready, remaining_list) \<Rightarrow>
     sched_inv P time gantt (set ready \<union> set remaining_list) \<and>
     distinct (map pid (ready @ remaining_list)) \<and> (\<forall>p\<in>set ready. arrival p \<le> time))"

text \<open>The non-preemptive loops mutate no process.\<close>

definition np_inv :: "proc list \<Rightarrow> np_state \<Rightarrow> bool" where
  "np_inv P s = (case s of (time, gantt, ready, remaining_list) \<Rightarrow>
     list_inv P s \<and> (\<forall>p\<in>set ready \<union> set remaining_list. remaining p = burst p))"

text \<open>
  The invariant of the preemptive loops. The timeline so far ends at the clock when no
  process is running, and at \<^verbatim>\<open>interval_start\<close>, before the clock, when one is. What
  is in the lists has not been mutated. Every process is in a list, is running, or has
  an interval that starts no earlier than it arrived.
\<close>

definition pre_inv :: "proc list \<Rightarrow> p_state \<Rightarrow> bool" where
  "pre_inv P s = (case s of (time, gantt, ready, remaining_list, current, interval_start) \<Rightarrow>
     contiguous_from 0 gantt \<and>
     (\<forall>(a, s, e)\<in>set gantt. a = ''idle'' \<or> a \<in> pid ` set P) \<and>
     set ready \<union> set remaining_list \<subseteq> set P \<and>
     distinct (map pid (ready @ remaining_list)) \<and>
     (\<forall>p\<in>set ready. arrival p \<le> time) \<and>
     (case current of
        None \<Rightarrow> interval_start = None \<and> gantt_end 0 gantt = time
      | Some c \<Rightarrow>
          (\<exists>st. interval_start = Some st \<and> gantt_end 0 gantt = st \<and> st < time \<and>
                arrival c \<le> st) \<and>
          0 < remaining c \<and> c\<lparr>remaining := burst c\<rparr> \<in> set P \<and>
          pid c \<notin> pid ` (set ready \<union> set remaining_list)) \<and>
     (\<forall>p\<in>set P. p \<in> set ready \<union> set remaining_list \<or>
        (\<exists>c. current = Some c \<and> pid c = pid p) \<or>
        (\<exists>s e. (pid p, s, e) \<in> set gantt \<and> arrival p \<le> s)) \<and>
     gaps_wait P gantt)"

definition pre_measure :: "p_state \<Rightarrow> nat" where
  "pre_measure s = (case s of (time, gantt, ready, remaining_list, current, interval_start) \<Rightarrow>
     2 * (work ready + work remaining_list +
          (case current of None \<Rightarrow> 0 | Some c \<Rightarrow> nat (remaining c) + 1)) +
       (if ready = [] \<and> current = None \<and> (\<forall>p\<in>set remaining_list. time < arrival p)
        then 1 else 0))"

text \<open>What the preemptive loops are shown to return: a contiguous timeline from 0 whose
  actors are pids or \<open>idle\<close>, in which every process has an interval that starts no
  earlier than it arrived, and which never waits for nothing.\<close>

definition served :: "proc list \<Rightarrow> gantt \<Rightarrow> bool" where
  "served P g \<longleftrightarrow>
     contiguous_from 0 g \<and> (\<forall>(a, s, e)\<in>set g. a = ''idle'' \<or> a \<in> pid ` set P) \<and>
     (\<forall>p\<in>set P. \<exists>s e. (pid p, s, e) \<in> set g \<and> arrival p \<le> s) \<and>
     gaps_wait P g"

text \<open>What the four policies that run a process only from a list are shown to return:
  in addition, every process whose pid is not \<open>idle\<close> gets exactly its burst, and when
  no pid is \<open>idle\<close> every interval is justified.\<close>

definition schedule :: "proc list \<Rightarrow> gantt \<Rightarrow> bool" where
  "schedule procs g \<longleftrightarrow>
     served procs g \<and>
     (\<forall>p\<in>set procs. pid p \<noteq> ''idle'' \<longrightarrow> run_time (pid p) g = burst p) \<and>
     (''idle'' \<notin> pid ` set procs \<longrightarrow> timeline_justified procs [] g)"

text \<open>The three components of an interval.\<close>

definition actor :: "interval \<Rightarrow> string" where
  "actor iv = fst iv"

definition start_of :: "interval \<Rightarrow> int" where
  "start_of iv = fst (snd iv)"

definition end_of :: "interval \<Rightarrow> int" where
  "end_of iv = snd (snd iv)"

text \<open>The latest completion in a timeline: the largest end of an interval that carries
  a pid, 0 when there is none.\<close>

definition max_completion :: "proc list \<Rightarrow> gantt \<Rightarrow> int" where
  "max_completion procs g =
     Max (set (0 # map end_of (filter (\<lambda>iv. actor iv \<in> pid ` set procs) g)))"

text \<open>
  The state of the processes at tick \<open>t\<close>, read off a timeline: \<open>ticks_before\<close> is
  the time the timeline gives to a pid before \<open>t\<close>, and \<open>state_at\<close> is the process with
  what is then left of its burst. A process is unfinished at \<open>t\<close> when it has arrived
  and has time left; it runs at \<open>t\<close> when an interval of its pid holds \<open>t\<close>.
  \<open>minimal_key_runs\<close>: no unfinished process has a smaller key than the one that runs.
\<close>

definition ticks_before :: "string \<Rightarrow> gantt \<Rightarrow> int \<Rightarrow> int" where
  "ticks_before x g t =
     sum_list (map (\<lambda>(a, s, e). max 0 (min e t - s)) (filter (\<lambda>(a, s, e). a = x) g))"

definition state_at :: "gantt \<Rightarrow> int \<Rightarrow> proc \<Rightarrow> proc" where
  "state_at g t p = p\<lparr>remaining := burst p - ticks_before (pid p) g t\<rparr>"

definition unfinished_at :: "proc list \<Rightarrow> gantt \<Rightarrow> int \<Rightarrow> proc list" where
  "unfinished_at procs g t =
     filter (\<lambda>p. arrival p \<le> t \<and> 0 < remaining p) (map (state_at g t) procs)"

definition running_at :: "proc list \<Rightarrow> gantt \<Rightarrow> int \<Rightarrow> proc list" where
  "running_at procs g t =
     filter (\<lambda>p. list_ex (\<lambda>(a, s, e). a = pid p \<and> s \<le> t \<and> t < e) g) (map (state_at g t) procs)"

definition minimal_key_runs :: "(proc \<Rightarrow> 'k::linorder) \<Rightarrow> proc list \<Rightarrow> gantt \<Rightarrow> int \<Rightarrow> bool" where
  "minimal_key_runs key procs g t \<longleftrightarrow>
     list_all (\<lambda>r. list_all (\<lambda>p. key r \<le> key p) (unfinished_at procs g t))
       (running_at procs g t)"

text \<open>The start of the first and the end of the last interval that carries the pid and
  is not labelled \<open>idle\<close>; \<open>None\<close> when there is no such interval.\<close>

definition first_start :: "string \<Rightarrow> gantt \<Rightarrow> int option" where
  "first_start k g =
     (if k = ''idle'' then None else map_option start_of (find (\<lambda>iv. actor iv = k) g))"

definition last_end :: "string \<Rightarrow> gantt \<Rightarrow> int option" where
  "last_end k g =
     (if k = ''idle'' then None else map_option end_of (find (\<lambda>iv. actor iv = k) (rev g)))"

text \<open>The arithmetic mean of a list of integers, \<open>None\<close> for the empty list.\<close>

definition mean :: "int list \<Rightarrow> rat option" where
  "mean xs = (if xs = [] then None else Some (of_int (sum_list xs) / of_int (int (length xs))))"

text \<open>The value of a float, and the least magnitude that is too large for a double:
  \<open>2^1024 - 2^970\<close>, half way between the largest double and \<open>2^1024\<close>.\<close>

fun float_value :: "pyfloat \<Rightarrow> rat" where
  "float_value (Double v) = v"
| "float_value NegZero = 0"

definition double_limit :: rat where
  "double_limit = pow2 1024 - pow2 970"

text \<open>The arithmetic mean as a float: the exact mean rounded to the nearest double,
  OverflowError when it is too large for one, \<open>None\<close> for the empty list.\<close>

definition rounded_mean :: "int list \<Rightarrow> error + pyfloat option" where
  "rounded_mean xs =
     (case mean xs of
        None \<Rightarrow> Inr None
      | Some q \<Rightarrow> (case round_to_double q of Inl e \<Rightarrow> Inl e | Inr x \<Rightarrow> Inr (Some x)))"

text \<open>A mean is too large when its magnitude reaches \<open>double_limit\<close>. A float is
  close to a mean when its value differs from the exact mean by no more than half a unit
  in the last place: \<open>2^-53\<close> of the mean, or \<open>2^-1075\<close> for a mean below the normal
  range.\<close>

definition too_large :: "int list \<Rightarrow> bool" where
  "too_large xs = (case mean xs of None \<Rightarrow> False | Some q \<Rightarrow> double_limit \<le> \<bar>q\<bar>)"

definition close_to_mean :: "pyfloat option \<Rightarrow> int list \<Rightarrow> bool" where
  "close_to_mean x xs =
     rel_option (\<lambda>f q. \<bar>float_value f - q\<bar> \<le> max (\<bar>q\<bar> / 2 ^ 53) (pow2 (- 1075))) x (mean xs)"

text \<open>The values of a field in the rows whose TAT is not null.\<close>

definition completed_values :: "(row \<Rightarrow> int option) \<Rightarrow> row list \<Rightarrow> int list" where
  "completed_values field rows = map (the \<circ> field) (filter (\<lambda>r. r_TAT r \<noteq> None) rows)"

text \<open>The rows together with the rounded means of TAT, WT and RT over the rows whose
  TAT is not null; the error of the first mean that is too large, if there is one.\<close>

definition with_averages :: "row list \<Rightarrow> error + row list \<times> avgs" where
  "with_averages rows =
     (case rounded_mean (completed_values r_TAT rows) of
        Inl e \<Rightarrow> Inl e
      | Inr t \<Rightarrow>
          (case rounded_mean (completed_values r_WT rows) of
             Inl e \<Rightarrow> Inl e
           | Inr w \<Rightarrow>
               (case rounded_mean (completed_values r_RT rows) of
                  Inl e \<Rightarrow> Inl e
                | Inr r \<Rightarrow> Inr (rows, \<lparr>avg_tat = t, avg_wt = w, avg_rt = r\<rparr>))))"

text \<open>The keys of a dictionary built from a list of keys: each key once, in the order
  of the first occurrences.\<close>

definition first_occurrences :: "'a list \<Rightarrow> 'a list" where
  "first_occurrences xs = rev (remdups (rev xs))"

text \<open>The descriptor a pid's row is built from: the last one with that pid.\<close>

definition descriptor_for :: "desc list \<Rightarrow> string \<Rightarrow> desc" where
  "descriptor_for proc_desc k = last (filter (\<lambda>x. d_pid x = k) proc_desc)"

text \<open>How a row depends on the timeline: start and completion are the first start and
  the last end of its pid, and the three times are differences, null with them.\<close>

definition row_matches :: "gantt \<Rightarrow> row \<Rightarrow> bool" where
  "row_matches g r \<longleftrightarrow>
     r_start r = first_start (r_pid r) g \<and> r_completion r = last_end (r_pid r) g \<and>
     r_TAT r = map_option (\<lambda>c. c - r_arrival r) (r_completion r) \<and>
     r_WT r = map_option (\<lambda>x. x - r_burst r) (r_TAT r) \<and>
     r_RT r = map_option (\<lambda>s. s - r_arrival r) (r_start r)"

text \<open>The four policies that take the process to run from a list only.\<close>

definition list_policy_keys :: "string list" where
  "list_policy_keys = [''fcfs'', ''sjf-np'', ''rr'', ''priority-np'']"

section \<open>Admission, minimum and iteration\<close>

text \<open>The admission loop splits the list: what has arrived goes to the end of
  \<^verbatim>\<open>ready\<close> in its order, the rest stays.\<close>

lemma admit_loop_eq:
  "\<forall>p\<in>set kept. \<not> arrival p \<le> time \<Longrightarrow>
   admit_loop time snapshot (ready, kept @ snapshot) =
     Inr (ready @ filter (\<lambda>p. arrival p \<le> time) snapshot,
          kept @ filter (\<lambda>p. \<not> arrival p \<le> time) snapshot)"
proof (induction snapshot arbitrary: ready kept)
  case Nil
  then show ?case by simp
next
  case (Cons p snapshot)
  show ?case
  proof (cases "arrival p \<le> time")
    case True
    with Cons.prems have "p \<notin> set kept" by auto
    then have "remove1 p (kept @ p # snapshot) = kept @ snapshot"
      by (simp add: remove1_append)
    with True Cons.IH [OF Cons.prems] show ?thesis by simp
  next
    case False
    with Cons.prems have "\<forall>q\<in>set (kept @ [p]). \<not> arrival q \<le> time" by auto
    from Cons.IH [OF this, of ready] False show ?thesis by simp
  qed
qed

text \<open>In particular \<^verbatim>\<open>remove\<close> always finds its element.\<close>

lemma admit_eq:
  "admit time ready remaining_list =
     Inr (ready @ filter (\<lambda>p. arrival p \<le> time) remaining_list,
          filter (\<lambda>p. \<not> arrival p \<le> time) remaining_list)"
  using admit_loop_eq [of "[]" time remaining_list ready] by (simp add: admit_def)

lemma py_min_foldl:
  fixes f :: "'a \<Rightarrow> 'k::linorder"
  shows "foldl (\<lambda>m y. if f y < f m then y else m) x xs \<in> set (x # xs) \<and>
   (\<forall>y\<in>set (x # xs). f (foldl (\<lambda>m y. if f y < f m then y else m) x xs) \<le> f y)"
proof (induction xs arbitrary: x)
  case Nil
  then show ?case by simp
next
  case (Cons a xs)
  show ?case using Cons.IH [of a] Cons.IH [of x] by (auto intro: order_trans less_imp_le)
qed

lemma py_min_None [simp]: "py_min f xs = None \<longleftrightarrow> xs = []"
  by (cases xs) simp_all

lemma py_min_Some:
  "py_min f xs = Some m \<Longrightarrow> m \<in> set xs \<and> (\<forall>y\<in>set xs. f m \<le> f y)"
  using py_min_foldl [of f] by (cases xs) auto

lemma iterate_total:
  assumes "wf R" and "I s"
    and "\<And>s. I s \<Longrightarrow> (case body s of Inl s' \<Rightarrow> I s' \<and> (s', s) \<in> R | Inr r \<Rightarrow> Q r)"
  shows "\<exists>r. iterate body s = Some r \<and> Q r"
  using assms(1,2)
proof (induction s rule: wf_induct_rule)
  case (less s)
  show ?case
  proof (cases "body s")
    case (Inl s')
    with assms(3) [OF less.prems] have "I s'" "(s', s) \<in> R" by simp_all
    from less.IH [OF this(2) this(1)] Inl show ?thesis
      by (subst iterate.simps) simp
  next
    case (Inr r)
    with assms(3) [OF less.prems] show ?thesis
      by (subst iterate.simps) simp
  qed
qed

lemma iterate_Some_not_looping:
  fixes body :: "'s \<Rightarrow> 's + 'r" and I :: "'s \<Rightarrow> bool"
  assumes "iterate body s = Some r"
  shows "(\<forall>s. I s \<longrightarrow> (\<exists>s'. body s = Inl s' \<and> I s')) \<longrightarrow> \<not> I s"
proof (rule iterate.raw_induct
    [where P = "\<lambda>body s r. (\<forall>s. I s \<longrightarrow> (\<exists>s'. body s = Inl s' \<and> I s')) \<longrightarrow> \<not> I s", OF _ assms])
  fix it :: "('s \<Rightarrow> 's + 'r) \<Rightarrow> 's \<Rightarrow> 'r option" and body s r
  assume IH: "\<And>b s y. it b s = Some y \<Longrightarrow>
                 (\<forall>s. I s \<longrightarrow> (\<exists>s'. b s = Inl s' \<and> I s')) \<longrightarrow> \<not> I s"
    and eq: "(case body s of Inl s' \<Rightarrow> it body s' | Inr r \<Rightarrow> Some r) = Some r"
  show "(\<forall>s. I s \<longrightarrow> (\<exists>s'. body s = Inl s' \<and> I s')) \<longrightarrow> \<not> I s"
  proof (intro impI notI)
    assume loop: "\<forall>s. I s \<longrightarrow> (\<exists>s'. body s = Inl s' \<and> I s')" and "I s"
    then obtain s' where s': "body s = Inl s'" "I s'" by blast
    with eq have "it body s' = Some r" by simp
    from IH [OF this] loop s'(2) show False by blast
  qed
qed

lemma iterate_None:
  assumes "I s" and "\<And>s. I s \<Longrightarrow> \<exists>s'. body s = Inl s' \<and> I s'"
  shows "iterate body s = None"
proof (cases "iterate body s")
  case None
  then show ?thesis .
next
  case (Some r)
  from iterate_Some_not_looping [OF Some, of I] assms show ?thesis by blast
qed

section \<open>Round Robin returns for every positive quantum\<close>

lemma work_simps [simp]:
  "work [] = 0" "work (p # xs) = nat (remaining p) + 1 + work xs" "work (xs @ ys) = work xs + work ys"
  by (simp_all add: work_def)

lemma work_filter: "work (filter P xs) + work (filter (\<lambda>x. \<not> P x) xs) = work xs"
  by (induction xs) simp_all

lemma work_pos: "xs \<noteq> [] \<Longrightarrow> 0 < work xs"
  by (cases xs) simp_all

lemma rr_measure_bounds:
  "2 * (work q + work r) \<le> rr_measure (t, g, q, r)"
  "rr_measure (t, g, q, r) \<le> 2 * (work q + work r) + 1"
  by (simp_all add: rr_measure_def)

lemma round_robin_body_decreases:
  assumes "0 < quantum"
  shows "case round_robin_body quantum s of
           Inl s' \<Rightarrow> rr_measure s' < rr_measure s
         | Inr r \<Rightarrow> \<exists>g. r = Inr g"
proof -
  obtain time gantt queue rl where s: "s = (time, gantt, queue, rl)"
    by (cases s) auto
  let ?adm = "filter (\<lambda>p. arrival p \<le> time) rl"
  let ?rest = "filter (\<lambda>p. \<not> arrival p \<le> time) rl"
  have w: "work ?adm + work ?rest = work rl" by (rule work_filter)
  show ?thesis
  proof (cases "rl = [] \<and> queue = []")
    case True
    then show ?thesis unfolding s by simp
  next
    case nonempty: False
    show ?thesis
    proof (cases "queue @ ?adm")
      case Nil
      then have q: "queue = []" and a: "?adm = []" by simp_all
      from a have all: "\<forall>p\<in>set rl. time < arrival p"
        by (auto simp: filter_empty_conv)
      then have rest: "?rest = rl" by (auto simp: filter_id_conv)
      from nonempty q have "rl \<noteq> []" by simp
      then obtain m where m: "py_min arrival rl = Some m"
        by (cases "py_min arrival rl") auto
      from py_min_Some [OF m] have "m \<in> set rl" by simp
      then have "\<not> (\<forall>p\<in>set rl. arrival m < arrival p)" by auto
      with all q a rest m \<open>rl \<noteq> []\<close> show ?thesis
        unfolding s by (simp add: admit_eq rr_measure_def Let_def)
    next
      case (Cons p queue')
      have "\<not> (queue = [] \<and> (\<forall>p\<in>set rl. time < arrival p))"
      proof
        assume "queue = [] \<and> (\<forall>p\<in>set rl. time < arrival p)"
        then have "queue @ ?adm = []" by (auto simp: filter_empty_conv)
        with Cons show False by simp
      qed
      then have before: "rr_measure s = 2 * (work queue + work rl)"
        by (simp add: s rr_measure_def)
      have "work queue + work ?adm = work (p # queue')"
        using Cons by (metis work_simps(3))
      with w have total: "work queue + work rl = nat (remaining p) + 1 + work queue' + work ?rest"
        by simp
      show ?thesis
      proof (cases "remaining p \<le> 0")
        case True
        with Cons nonempty
        have body: "round_robin_body quantum s = Inl (time, gantt, queue', ?rest)"
          by (simp add: s admit_eq)
        from rr_measure_bounds(2) [of time gantt queue' ?rest] before total
        show ?thesis by (simp add: body)
      next
        case False
        define run where "run = min quantum (remaining p)"
        with False assms have run: "0 < run" "run \<le> remaining p" by auto
        let ?t = "time + run"
        let ?p = "p\<lparr>remaining := remaining p - run\<rparr>"
        let ?g = "gantt @ [(pid p, time, ?t)]"
        define a2 where "a2 = filter (\<lambda>p. arrival p \<le> ?t) ?rest"
        define r2 where "r2 = filter (\<lambda>p. \<not> arrival p \<le> ?t) ?rest"
        define q2 where "q2 = (if 0 < remaining ?p then queue' @ a2 @ [?p] else queue' @ a2)"
        have w2: "work a2 + work r2 = work ?rest"
          unfolding a2_def r2_def by (rule work_filter)
        from False Cons nonempty
        have body: "round_robin_body quantum s = Inl (?t, ?g, q2, r2)"
          by (simp add: s admit_eq Let_def run_def [symmetric] q2_def a2_def r2_def)
        from run False have "nat (remaining p - run) < nat (remaining p)" by auto
        then have less: "work q2 < nat (remaining p) + 1 + work queue' + work a2"
          by (simp add: q2_def)
        have "rr_measure (?t, ?g, q2, r2) \<le> 2 * (work q2 + work r2) + 1"
          by (rule rr_measure_bounds)
        also from less have "\<dots> < 2 * (nat (remaining p) + 1 + work queue' + work a2 + work r2)"
          by simp
        also from total w2 have "\<dots> = 2 * (work queue + work rl)" by simp
        finally show ?thesis by (simp only: body sum.case before)
      qed
    qed
  qed
qed

lemma round_robin_returns:
  assumes "0 < quantum"
  shows "\<exists>g. round_robin procs quantum = Some (Inr g)"
proof -
  have "\<exists>r. iterate (round_robin_body quantum) (0, [], [], copies procs) = Some r \<and> (\<exists>g. r = Inr g)"
  proof (rule iterate_total [where R = "measure rr_measure" and I = "\<lambda>_. True"])
    fix s :: np_state
    from round_robin_body_decreases [OF assms, of s]
    show "case round_robin_body quantum s of
            Inl s' \<Rightarrow> True \<and> (s', s) \<in> measure rr_measure
          | Inr r \<Rightarrow> \<exists>g. r = Inr g"
      by (auto split: sum.splits)
  qed simp_all
  then show ?thesis by (auto simp: round_robin_def)
qed

section \<open>Running a process and jumping over a gap keep the invariant\<close>

lemma contiguous_from_append:
  "contiguous_from t (g @ h) \<longleftrightarrow> contiguous_from t g \<and> contiguous_from (gantt_end t g) h"
  by (induction t g rule: contiguous_from.induct) auto

lemma gantt_end_append: "gantt_end t (g @ h) = gantt_end (gantt_end t g) h"
  by (induction t g rule: gantt_end.induct) auto

lemma run_time_Nil [simp]: "run_time x [] = 0"
  by (simp add: run_time_def)

lemma run_time_snoc:
  "run_time x (g @ [(a, s, e)]) = run_time x g + (if a = x then e - s else 0)"
  by (simp add: run_time_def)

lemma timeline_justified_append:
  "timeline_justified P before (g @ h) \<longleftrightarrow>
     timeline_justified P before g \<and> timeline_justified P (before @ g) h"
  by (induction g arbitrary: before) auto

lemma gaps_wait_Nil [simp]: "gaps_wait P []"
  by (simp add: gaps_wait_def)

lemma gaps_wait_snoc:
  "gaps_wait P (g @ [(a, s, e)]) \<longleftrightarrow>
     gaps_wait P g \<and> (a \<in> pid ` set P \<or> (\<exists>p\<in>set P. s < arrival p))"
  by (auto simp: gaps_wait_def)

lemma next_arrivalI:
  assumes "m \<in> set P" "t < arrival m" "\<forall>p\<in>set P. t < arrival p \<longrightarrow> arrival m \<le> arrival p"
  shows "next_arrival P t = arrival m"
  unfolding next_arrival_def
  by (rule Min_eqI) (use assms in auto)

lemma original_unique:
  assumes "proper P" "p \<in> set P" "q\<lparr>remaining := burst q\<rparr> \<in> set P" "pid p = pid q"
  shows "p = q\<lparr>remaining := burst q\<rparr>"
proof -
  from assms(1) have "inj_on pid (set P)" by (simp add: proper_def distinct_map)
  from inj_onD [OF this _ assms(2,3)] assms(4) show ?thesis by simp
qed

lemma sched_idle:
  assumes inv: "sched_inv P t g L" and P: "proper P"
    and late: "\<forall>q\<in>L. t < arrival q" and m: "m \<in> L" "\<forall>q\<in>L. arrival m \<le> arrival q"
  shows "sched_inv P (arrival m) (g @ [(''idle'', t, arrival m)]) L"
proof -
  let ?g = "g @ [(''idle'', t, arrival m)]"
  from inv have L: "\<forall>q\<in>L. q\<lparr>remaining := burst q\<rparr> \<in> set P"
    and fin: "\<forall>p\<in>set P. pid p \<notin> pid ` L \<longrightarrow>
        arrival p \<le> t \<and> (pid p \<noteq> ''idle'' \<longrightarrow> run_time (pid p) g = burst p) \<and>
        (\<exists>s e. (pid p, s, e) \<in> set g \<and> arrival p \<le> s)"
    by (simp_all add: sched_inv_def)
  have orig: "arrival p = arrival q" if "p \<in> set P" "q \<in> L" "pid p = pid q" for p q
    using original_unique [OF P that(1) _ that(3)] L that(2) by (metis proc.select_convs(2) proc.surjective proc.update_convs(5))
  have gone: "pid p \<notin> pid ` L" if "p \<in> set P" "arrival p \<le> t" for p
    using that late orig by force
  have c1: "contiguous_from 0 ?g" "gantt_end 0 ?g = arrival m"
    using inv late m by (auto simp: sched_inv_def contiguous_from_append gantt_end_append)
  have c3: "\<forall>(a, s, e)\<in>set ?g. a = ''idle'' \<or> a \<in> pid ` set P"
    using inv by (auto simp: sched_inv_def)
  have c6: "\<forall>q\<in>L. pid q \<noteq> ''idle'' \<longrightarrow> run_time (pid q) ?g = burst q - remaining q"
    using inv by (auto simp: sched_inv_def run_time_snoc)
  have c7: "\<forall>p\<in>set P. pid p \<notin> pid ` L \<longrightarrow>
        arrival p \<le> arrival m \<and> (pid p \<noteq> ''idle'' \<longrightarrow> run_time (pid p) ?g = burst p) \<and>
        (\<exists>s e. (pid p, s, e) \<in> set ?g \<and> arrival p \<le> s)"
    using fin late m(1) by (fastforce simp: run_time_snoc)
  have c8: "timeline_justified P [] ?g" if noidle: "''idle'' \<notin> pid ` set P"
  proof -
    from inv noidle have "timeline_justified P [] g" by (simp add: sched_inv_def)
    moreover have "\<forall>p\<in>set P. arrival p \<le> t \<longrightarrow> run_time (pid p) g = burst p"
      using gone fin noidle by (metis image_eqI)
    moreover from m(1) L have m0: "m\<lparr>remaining := burst m\<rparr> \<in> set P" by blast
    then have "\<exists>p\<in>set P. t < arrival p" using late m(1)
      by (intro bexI [of _ "m\<lparr>remaining := burst m\<rparr>"]) auto
    moreover have "next_arrival P t = arrival (m\<lparr>remaining := burst m\<rparr>)"
    proof (rule next_arrivalI [OF m0])
      show "t < arrival (m\<lparr>remaining := burst m\<rparr>)" using late m(1) by simp
      show "\<forall>p\<in>set P. t < arrival p \<longrightarrow> arrival (m\<lparr>remaining := burst m\<rparr>) \<le> arrival p"
      proof (intro ballI impI)
        fix p assume p: "p \<in> set P" "t < arrival p"
        with fin have "pid p \<in> pid ` L" by force
        then obtain q where "q \<in> L" "pid p = pid q" by auto
        with orig [OF p(1)] m(2) show "arrival (m\<lparr>remaining := burst m\<rparr>) \<le> arrival p" by simp
      qed
    qed
    ultimately show ?thesis by (simp add: timeline_justified_append)
  qed
  have c9: "gaps_wait P ?g"
  proof -
    from inv have "gaps_wait P g" by (simp add: sched_inv_def)
    moreover from m(1) L have "m\<lparr>remaining := burst m\<rparr> \<in> set P" by blast
    then have "\<exists>p\<in>set P. t < arrival p" using late m(1)
      by (intro bexI [of _ "m\<lparr>remaining := burst m\<rparr>"]) auto
    ultimately show ?thesis by (simp add: gaps_wait_snoc)
  qed
  from inv c1 c3 c6 c7 c8 c9 show ?thesis by (simp add: sched_inv_def)
qed


lemma pid_original:
  "q\<lparr>remaining := r\<rparr> \<in> set P \<Longrightarrow> pid q \<in> pid ` set P"
  by (rule image_eqI [where x = "q\<lparr>remaining := r\<rparr>"]) simp_all

lemma sched_run:
  assumes inv: "sched_inv P t g L" and P: "proper P"
    and p: "p \<in> L" "arrival p \<le> t" and d: "0 < d" "d \<le> remaining p"
    and L': "L' = (if d < remaining p then insert (p\<lparr>remaining := remaining p - d\<rparr>) (L - {p})
                   else L - {p})"
  shows "sched_inv P (t + d) (g @ [(pid p, t, t + d)]) L'"
proof -
  let ?g = "g @ [(pid p, t, t + d)]"
  let ?p' = "p\<lparr>remaining := remaining p - d\<rparr>"
  from inv have inj: "inj_on pid L"
    and live: "\<forall>q\<in>L. 0 < remaining q \<and> remaining q \<le> burst q \<and> q\<lparr>remaining := burst q\<rparr> \<in> set P"
    and run: "\<forall>q\<in>L. pid q \<noteq> ''idle'' \<longrightarrow> run_time (pid q) g = burst q - remaining q"
    and fin: "\<forall>p\<in>set P. pid p \<notin> pid ` L \<longrightarrow>
        arrival p \<le> t \<and> (pid p \<noteq> ''idle'' \<longrightarrow> run_time (pid p) g = burst p) \<and>
        (\<exists>s e. (pid p, s, e) \<in> set g \<and> arrival p \<le> s)"
    by (simp_all add: sched_inv_def)
  from live p(1) have p0: "p\<lparr>remaining := burst p\<rparr> \<in> set P" by blast
  have other: "pid q \<noteq> pid p" if "q \<in> L - {p}" for q
    using that p(1) inj by (auto dest: inj_onD)
  have sub: "L' - {?p'} \<subseteq> L - {p}" by (auto simp: L')
  have pids: "pid ` L' = (if d < remaining p then pid ` L else pid ` L - {pid p})"
    using other p(1) by (auto simp: L')
  have c1: "contiguous_from 0 ?g" "gantt_end 0 ?g = t + d"
    using inv d by (auto simp: sched_inv_def contiguous_from_append gantt_end_append)
  have c3: "\<forall>(a, s, e)\<in>set ?g. a = ''idle'' \<or> a \<in> pid ` set P"
  proof -
    from p0 have "pid p \<in> pid ` set P" by (rule pid_original)
    with inv show ?thesis by (auto simp: sched_inv_def)
  qed
  have c4: "inj_on pid L'"
  proof (rule inj_onI)
    fix x y assume xy: "x \<in> L'" "y \<in> L'" "pid x = pid y"
    show "x = y"
    proof (cases "x = ?p' \<or> y = ?p'")
      case True
      with xy other sub show ?thesis by (cases "x = ?p'"; cases "y = ?p'") fastforce+
    next
      case False
      with xy sub have "x \<in> L" "y \<in> L" by auto
      with inj xy(3) show ?thesis by (auto dest: inj_onD)
    qed
  qed
  have c5: "\<forall>q\<in>L'. 0 < remaining q \<and> remaining q \<le> burst q \<and> q\<lparr>remaining := burst q\<rparr> \<in> set P"
    using live p(1) d p0 by (auto simp: L' split: if_splits)
  have c6: "\<forall>q\<in>L'. pid q \<noteq> ''idle'' \<longrightarrow> run_time (pid q) ?g = burst q - remaining q"
  proof (intro ballI impI)
    fix q assume q: "q \<in> L'" "pid q \<noteq> ''idle''"
    show "run_time (pid q) ?g = burst q - remaining q"
    proof (cases "q = ?p'")
      case True
      with run p(1) q(2) show ?thesis by (simp add: run_time_snoc)
    next
      case False
      with q(1) sub have qL: "q \<in> L - {p}" by auto
      with other have "pid q \<noteq> pid p" by simp
      with run qL q(2) show ?thesis by (simp add: run_time_snoc)
    qed
  qed
  have c7: "\<forall>x\<in>set P. pid x \<notin> pid ` L' \<longrightarrow>
        arrival x \<le> t + d \<and> (pid x \<noteq> ''idle'' \<longrightarrow> run_time (pid x) ?g = burst x) \<and>
        (\<exists>s e. (pid x, s, e) \<in> set ?g \<and> arrival x \<le> s)"
  proof (intro ballI impI)
    fix x assume x: "x \<in> set P" "pid x \<notin> pid ` L'"
    show "arrival x \<le> t + d \<and> (pid x \<noteq> ''idle'' \<longrightarrow> run_time (pid x) ?g = burst x) \<and>
        (\<exists>s e. (pid x, s, e) \<in> set ?g \<and> arrival x \<le> s)"
    proof (cases "pid x = pid p")
      case True
      from original_unique [OF P x(1) p0 True] have xp: "x = p\<lparr>remaining := burst p\<rparr>" .
      from x(2) True pids p(1) have full: "\<not> d < remaining p" by (auto split: if_splits)
      with d have "d = remaining p" by simp
      with run p(1) have "pid p \<noteq> ''idle'' \<longrightarrow> run_time (pid p) ?g = burst p"
        by (simp add: run_time_snoc)
      with p(2) d(1) show ?thesis by (auto simp: xp)
    next
      case False
      with x(2) pids have "pid x \<notin> pid ` L" by (auto split: if_splits)
      with fin x(1) False d(1) show ?thesis by (fastforce simp: run_time_snoc)
    qed
  qed
  have c8: "timeline_justified P [] ?g" if noidle: "''idle'' \<notin> pid ` set P"
  proof -
    from inv noidle have "timeline_justified P [] g" by (simp add: sched_inv_def)
    moreover from pid_original [OF p0] noidle have ni: "pid p \<noteq> ''idle''" by auto
    moreover have "\<exists>x\<in>set P. pid x = pid p \<and> arrival x \<le> t \<and> run_time (pid p) g < burst x"
      using p0 p run live ni by (intro bexI [of _ "p\<lparr>remaining := burst p\<rparr>"]) auto
    ultimately show ?thesis by (simp add: timeline_justified_append)
  qed
  have c9: "gaps_wait P ?g"
  proof -
    from inv have "gaps_wait P g" by (simp add: sched_inv_def)
    with pid_original [OF p0] show ?thesis by (simp add: gaps_wait_snoc)
  qed
  from c1 c3 c4 c5 c6 c7 c8 c9 show ?thesis by (simp add: sched_inv_def)
qed

section \<open>The non-preemptive loops\<close>

lemma mset_pop_admitted:
  assumes "mset (p # rr) = mset (ready @ filter A rl)"
  shows "mset (p # rr @ filter (\<lambda>x. \<not> A x) rl) = mset (ready @ rl)"
proof -
  have part: "mset rl = {#x \<in># mset rl. A x#} + {#x \<in># mset rl. \<not> A x#}"
    by (rule multiset_partition)
  from assms have "add_mset p (mset rr) = mset ready + {#x \<in># mset rl. A x#}" by simp
  then have "add_mset p (mset rr) + {#x \<in># mset rl. \<not> A x#} =
             mset ready + ({#x \<in># mset rl. A x#} + {#x \<in># mset rl. \<not> A x#})"
    by (simp only: add.assoc)
  with part show ?thesis by simp
qed

lemma distinct_map_mset:
  assumes "mset xs = mset ys"
  shows "distinct (map f xs) \<longleftrightarrow> distinct (map f ys)"
proof -
  from assms have "mset (map f xs) = mset (map f ys)" by simp
  then show ?thesis by (rule mset_eq_imp_distinct_iff)
qed

lemma work_mset: "mset xs = mset ys \<Longrightarrow> work xs = work ys"
proof -
  assume "mset xs = mset ys"
  then have "mset (map (\<lambda>p. nat (remaining p) + 1) xs) = mset (map (\<lambda>p. nat (remaining p) + 1) ys)"
    by simp
  then have "sum_mset (mset (map (\<lambda>p. nat (remaining p) + 1) xs)) =
             sum_mset (mset (map (\<lambda>p. nat (remaining p) + 1) ys))" by simp
  then show ?thesis unfolding work_def sum_mset_sum_list .
qed

text \<open>What popping the head of the admitted list does to the bookkeeping.\<close>

lemma pop_admitted:
  assumes m: "mset (p # rr) = mset (ready @ filter (\<lambda>x. arrival x \<le> t) rl)"
    and d: "distinct (map pid (ready @ rl))"
    and a: "\<forall>x\<in>set ready. arrival x \<le> t"
  shows "p \<in> set ready \<union> set rl"
    and "set rr \<union> set (filter (\<lambda>x. \<not> arrival x \<le> t) rl) = (set ready \<union> set rl) - {p}"
    and "distinct (map pid (rr @ filter (\<lambda>x. \<not> arrival x \<le> t) rl))"
    and "pid p \<notin> pid ` set (rr @ filter (\<lambda>x. \<not> arrival x \<le> t) rl)"
    and "arrival p \<le> t" and "\<forall>x\<in>set rr. arrival x \<le> t"
    and "work ready + work rl = nat (remaining p) + 1 + work rr + work (filter (\<lambda>x. \<not> arrival x \<le> t) rl)"
proof -
  let ?rest = "filter (\<lambda>x. \<not> arrival x \<le> t) rl"
  from mset_pop_admitted [OF m] have all: "mset (p # rr @ ?rest) = mset (ready @ rl)" .
  from mset_eq_setD [OF all] have sets: "set (p # rr @ ?rest) = set (ready @ rl)" .
  from distinct_map_mset [OF all, of pid] d have dist: "distinct (map pid (p # rr @ ?rest))" by simp
  then have notin: "pid p \<notin> pid ` set (rr @ ?rest)" and dist': "distinct (map pid (rr @ ?rest))"
    by (simp_all add: image_Un)
  from notin have "p \<notin> set (rr @ ?rest)" by auto
  with sets show "p \<in> set ready \<union> set rl"
    and "set rr \<union> set ?rest = (set ready \<union> set rl) - {p}" by auto
  from dist' show "distinct (map pid (rr @ ?rest))" .
  from notin show "pid p \<notin> pid ` set (rr @ ?rest)" .
  from mset_eq_setD [OF m] have "set (p # rr) = set ready \<union> set (filter (\<lambda>x. arrival x \<le> t) rl)"
    by simp
  with a show "arrival p \<le> t" and "\<forall>x\<in>set rr. arrival x \<le> t" by auto
  from work_mset [OF all] show "work ready + work rl = nat (remaining p) + 1 + work rr + work ?rest"
    by simp
qed

lemma nonpreemptive_body_step:
  fixes key :: "proc \<Rightarrow> 'k::linorder"
  assumes P: "proper P" and inv: "np_inv P s"
  shows "case nonpreemptive_body key s of
           Inl s' \<Rightarrow> np_inv P s' \<and> rr_measure s' < rr_measure s
         | Inr r \<Rightarrow> \<exists>g t. r = Inr g \<and> sched_inv P t g {}"
proof -
  obtain t g ready rl where s: "s = (t, g, ready, rl)" by (cases s) auto
  let ?L = "set ready \<union> set rl"
  let ?adm = "filter (\<lambda>p. arrival p \<le> t) rl"
  let ?rest = "filter (\<lambda>p. \<not> arrival p \<le> t) rl"
  from inv have sched: "sched_inv P t g ?L"
    and dist: "distinct (map pid (ready @ rl))"
    and arrived: "\<forall>p\<in>set ready. arrival p \<le> t"
    and fresh: "\<forall>p\<in>?L. remaining p = burst p"
    by (simp_all add: s np_inv_def list_inv_def)
  show ?thesis
  proof (cases "rl = [] \<and> ready = []")
    case True
    with sched show ?thesis unfolding s by auto
  next
    case nonempty: False
    show ?thesis
    proof (cases "ready @ ?adm = []")
      case True
      then have r: "ready = []" and a: "?adm = []" by simp_all
      from a have late: "\<forall>p\<in>set rl. t < arrival p" by (auto simp: filter_empty_conv)
      then have rest: "?rest = rl" by (auto simp: filter_id_conv)
      from nonempty r have ne: "rl \<noteq> []" by simp
      then obtain m where m: "py_min arrival rl = Some m" by (cases "py_min arrival rl") auto
      from py_min_Some [OF m] have mm: "m \<in> set rl" "\<forall>y\<in>set rl. arrival m \<le> arrival y" by simp_all
      let ?s' = "(arrival m, g @ [(''idle'', t, arrival m)], [], rl)"
      have body: "nonpreemptive_body key s = Inl ?s'"
        using r a rest ne m by (simp add: s admit_eq Let_def)
      from sched_idle [OF sched P, of m] late mm r
      have "sched_inv P (arrival m) (g @ [(''idle'', t, arrival m)]) (set [] \<union> set rl)" by simp
      with dist fresh r have i: "np_inv P ?s'" by (simp add: np_inv_def list_inv_def)
      from mm(1) have "\<not> (\<forall>p\<in>set rl. arrival m < arrival p)" by auto
      with late r have "rr_measure ?s' < rr_measure s" by (simp add: s rr_measure_def)
      with i show ?thesis by (simp add: body)
    next
      case False
      then have "sort_key key (ready @ ?adm) \<noteq> []"
        by (metis length_0_conv length_sort)
      then obtain p rr where sorted: "sort_key key (ready @ ?adm) = p # rr"
        by (cases "sort_key key (ready @ ?adm)") auto
      then have "mset (p # rr) = mset (ready @ ?adm)" by (metis mset_sort)
      note pop = pop_admitted [OF this dist arrived]
      let ?s' = "(t + burst p, g @ [(pid p, t, t + burst p)], rr, ?rest)"
      have body: "nonpreemptive_body key s = Inl ?s'"
        using False nonempty sorted by (auto simp: s admit_eq Let_def)
      from pop(1) fresh have rem: "remaining p = burst p" by blast
      from sched pop(1) have pos: "0 < remaining p" by (simp add: sched_inv_def)
      from sched_run [OF sched P pop(1) pop(5), of "burst p" "?L - {p}"] rem pos pop(2)
      have "sched_inv P (t + burst p) (g @ [(pid p, t, t + burst p)]) (set rr \<union> set ?rest)"
        by simp
      moreover from pop(6) pos rem have "\<forall>x\<in>set rr. arrival x \<le> t + burst p" by fastforce
      moreover from pop(2) fresh have "\<forall>x\<in>set rr \<union> set ?rest. remaining x = burst x" by blast
      ultimately have i: "np_inv P ?s'" using pop(3) by (simp add: np_inv_def list_inv_def)
      have "rr_measure ?s' \<le> 2 * (work rr + work ?rest) + 1" by (rule rr_measure_bounds)
      also from pop(7) have "\<dots> < 2 * (work ready + work rl)" by simp
      also have "\<dots> \<le> rr_measure s" unfolding s by (rule rr_measure_bounds)
      finally show ?thesis using i by (simp add: body)
    qed
  qed
qed

text \<open>The unguarded \<^verbatim>\<open>min\<close> of \<^verbatim>\<open>sjf_nonpreemptive\<close> is never reached with an empty
  list: the two bodies agree on every state.\<close>

lemma sjf_nonpreemptive_body_eq:
  "sjf_nonpreemptive_body s = nonpreemptive_body (\<lambda>x. (burst x, arrival x)) s"
proof -
  obtain t g ready rl where s: "s = (t, g, ready, rl)" by (cases s) auto
  show ?thesis
  proof (cases "filter (\<lambda>p. \<not> arrival p \<le> t) rl = []")
    case True
    then have "\<forall>p\<in>set rl. arrival p \<le> t" by (auto simp: filter_empty_conv)
    then have "filter (\<lambda>p. arrival p \<le> t) rl = rl" by (auto simp: filter_id_conv)
    with True show ?thesis by (auto simp: s admit_eq)
  next
    case False
    then show ?thesis by (auto simp: s admit_eq Let_def split: option.splits)
  qed
qed

lemma proper_copies: "well_formed procs \<Longrightarrow> proper (copies procs)"
  by (auto simp: well_formed_def proper_def copies_def Proc_def comp_def)

lemma sched_inv_init:
  assumes "proper P"
  shows "sched_inv P 0 [] (set P)"
proof -
  from assms have inj: "inj_on pid (set P)" by (simp add: proper_def distinct_map)
  from assms have same: "q\<lparr>remaining := burst q\<rparr> = q" if "q \<in> set P" for q
    using that by (simp add: proper_def)
  from assms have pos: "\<forall>q\<in>set P. 0 < remaining q \<and> remaining q \<le> burst q"
    by (simp add: proper_def)
  have "\<forall>q\<in>set P. q\<lparr>remaining := burst q\<rparr> \<in> set P" using same by simp
  moreover have "\<forall>q\<in>set P. run_time (pid q) [] = burst q - remaining q"
    using assms by (simp add: proper_def)
  ultimately show ?thesis using inj pos by (simp add: sched_inv_def)
qed

lemma np_inv_init: "proper P \<Longrightarrow> np_inv P (0, [], [], P)"
  using sched_inv_init [of P] by (simp add: np_inv_def list_inv_def proper_def)

lemma nonpreemptive_returns:
  fixes key :: "proc \<Rightarrow> 'k::linorder"
  assumes "proper P"
  shows "\<exists>g t. iterate (nonpreemptive_body key) (0, [], [], P) = Some (Inr g) \<and> sched_inv P t g {}"
proof -
  have "\<exists>r. iterate (nonpreemptive_body key) (0, [], [], P) = Some r \<and>
          (\<exists>g t. r = Inr g \<and> sched_inv P t g {})"
  proof (rule iterate_total [where R = "measure rr_measure" and I = "np_inv P"])
    show "np_inv P (0, [], [], P)" using assms by (rule np_inv_init)
  next
    fix s assume "np_inv P s"
    from nonpreemptive_body_step [OF assms this, of key]
    show "case nonpreemptive_body key s of
            Inl s' \<Rightarrow> np_inv P s' \<and> (s', s) \<in> measure rr_measure
          | Inr r \<Rightarrow> \<exists>g t. r = Inr g \<and> sched_inv P t g {}"
      by (auto split: sum.splits)
  qed simp
  then show ?thesis by blast
qed

section \<open>The Round Robin loop\<close>

lemma mset_filter_split: "mset (filter A xs @ filter (\<lambda>x. \<not> A x) xs) = mset xs"
  by (induction xs) simp_all

lemma round_robin_body_inv:
  assumes P: "proper P" and quantum: "0 < quantum" and inv: "list_inv P s"
  shows "case round_robin_body quantum s of
           Inl s' \<Rightarrow> list_inv P s'
         | Inr r \<Rightarrow> \<exists>g t. r = Inr g \<and> sched_inv P t g {}"
proof -
  obtain t g queue rl where s: "s = (t, g, queue, rl)" by (cases s) auto
  let ?L = "set queue \<union> set rl"
  let ?adm = "filter (\<lambda>p. arrival p \<le> t) rl"
  let ?rest = "filter (\<lambda>p. \<not> arrival p \<le> t) rl"
  from inv have sched: "sched_inv P t g ?L"
    and dist: "distinct (map pid (queue @ rl))"
    and arrived: "\<forall>p\<in>set queue. arrival p \<le> t"
    by (simp_all add: s list_inv_def)
  show ?thesis
  proof (cases "rl = [] \<and> queue = []")
    case True
    with sched show ?thesis unfolding s by auto
  next
    case nonempty: False
    show ?thesis
    proof (cases "queue @ ?adm")
      case Nil
      then have r: "queue = []" and a: "?adm = []" by simp_all
      from a have late: "\<forall>p\<in>set rl. t < arrival p" by (auto simp: filter_empty_conv)
      then have rest: "?rest = rl" by (auto simp: filter_id_conv)
      from nonempty r have ne: "rl \<noteq> []" by simp
      then obtain m where m: "py_min arrival rl = Some m" by (cases "py_min arrival rl") auto
      from py_min_Some [OF m] have mm: "m \<in> set rl" "\<forall>y\<in>set rl. arrival m \<le> arrival y" by simp_all
      let ?s' = "(arrival m, g @ [(''idle'', t, arrival m)], [], rl)"
      have body: "round_robin_body quantum s = Inl ?s'"
        using r a rest ne m by (simp add: s admit_eq Let_def)
      from sched_idle [OF sched P, of m] late mm r
      have "sched_inv P (arrival m) (g @ [(''idle'', t, arrival m)]) (set [] \<union> set rl)" by simp
      with dist r have "list_inv P ?s'" by (simp add: list_inv_def)
      then show ?thesis by (simp add: body)
    next
      case (Cons p queue')
      then have "mset (p # queue') = mset (queue @ ?adm)" by simp
      note pop = pop_admitted [OF this dist arrived]
      from sched pop(1) have pos: "0 < remaining p" by (simp add: sched_inv_def)
      define run where "run = min quantum (remaining p)"
      with pos quantum have run: "0 < run" "run \<le> remaining p" by auto
      let ?t = "t + run"
      let ?p = "p\<lparr>remaining := remaining p - run\<rparr>"
      let ?g = "g @ [(pid p, t, ?t)]"
      define a2 where "a2 = filter (\<lambda>p. arrival p \<le> ?t) ?rest"
      define r2 where "r2 = filter (\<lambda>p. \<not> arrival p \<le> ?t) ?rest"
      define q2 where "q2 = (if 0 < remaining ?p then queue' @ a2 @ [?p] else queue' @ a2)"
      have body: "round_robin_body quantum s = Inl (?t, ?g, q2, r2)"
        using pos Cons nonempty
        by (simp add: s admit_eq Let_def run_def [symmetric] q2_def a2_def r2_def)
      have parts: "mset (a2 @ r2) = mset ?rest"
        unfolding a2_def r2_def by (rule mset_filter_split)
      then have sets: "set a2 \<union> set r2 = set ?rest" by (metis mset_eq_setD set_append)
      define L' where "L' = (if run < remaining p then insert ?p (?L - {p}) else ?L - {p})"
      from sched_run [OF sched P pop(1) pop(5) run L'_def]
      have sched': "sched_inv P ?t ?g L'" .
      have L': "set q2 \<union> set r2 = L'"
        using pop(2) sets by (auto simp: q2_def L'_def)
      have "mset (queue' @ a2 @ r2) = mset (queue' @ ?rest)" using parts by simp
      from distinct_map_mset [OF this, of pid] pop(3)
      have d1: "distinct (map pid (queue' @ a2 @ r2))" by simp
      have "pid ` set (queue' @ a2 @ r2) = pid ` set (queue' @ ?rest)" using sets by auto
      with pop(4) have d2: "pid p \<notin> pid ` set (queue' @ a2 @ r2)" by simp
      have dist': "distinct (map pid (q2 @ r2))"
      proof (cases "0 < remaining ?p")
        case True
        have "mset (q2 @ r2) = mset (?p # queue' @ a2 @ r2)" using True by (simp add: q2_def)
        from distinct_map_mset [OF this, of pid] d1 d2 show ?thesis by (simp add: image_Un)
      next
        case False
        with d1 show ?thesis by (simp add: q2_def)
      qed
      have arr: "\<forall>x\<in>set q2. arrival x \<le> ?t"
        using pop(5,6) run(1) by (auto simp: q2_def a2_def)
      from sched' L' dist' arr have "list_inv P (?t, ?g, q2, r2)" by (simp add: list_inv_def)
      then show ?thesis by (simp add: body)
    qed
  qed
qed

lemma list_inv_init: "proper P \<Longrightarrow> list_inv P (0, [], [], P)"
  using sched_inv_init [of P] by (simp add: list_inv_def proper_def)

lemma round_robin_loop_returns:
  assumes "proper P" and "0 < quantum"
  shows "\<exists>g t. iterate (round_robin_body quantum) (0, [], [], P) = Some (Inr g) \<and>
           sched_inv P t g {}"
proof -
  have "\<exists>r. iterate (round_robin_body quantum) (0, [], [], P) = Some r \<and>
          (\<exists>g t. r = Inr g \<and> sched_inv P t g {})"
  proof (rule iterate_total [where R = "measure rr_measure" and I = "list_inv P"])
    show "list_inv P (0, [], [], P)" using assms(1) by (rule list_inv_init)
  next
    fix s assume "list_inv P s"
    from round_robin_body_inv [OF assms this] round_robin_body_decreases [OF assms(2), of s]
    show "case round_robin_body quantum s of
            Inl s' \<Rightarrow> list_inv P s' \<and> (s', s) \<in> measure rr_measure
          | Inr r \<Rightarrow> \<exists>g t. r = Inr g \<and> sched_inv P t g {}"
      by (auto split: sum.splits)
  qed simp
  then show ?thesis by blast
qed

section \<open>The loop of \<^verbatim>\<open>fcfs\<close>\<close>

lemma copies_fields [simp]:
  "map pid (copies xs) = map pid xs" "map arrival (copies xs) = map arrival xs"
  "map burst (copies xs) = map burst xs"
  by (simp_all add: copies_def Proc_def comp_def)

lemma copies_Cons: "copies (p # xs) = Proc (pid p) (arrival p) (burst p) (priority p) # copies xs"
  by (simp add: copies_def)

lemma Proc_fields [simp]:
  "pid (Proc i a b pr) = i" "arrival (Proc i a b pr) = a" "burst (Proc i a b pr) = b"
  "priority (Proc i a b pr) = pr" "remaining (Proc i a b pr) = b"
  by (simp_all add: Proc_def)

lemma fcfs_loop_inv:
  assumes "proper P" "sched_inv P t g (set (copies todo))"
    and "sorted (map arrival todo)" "distinct (map pid todo)"
  shows "\<exists>t'. sched_inv P t' (fcfs_loop todo t g) {}"
  using assms(2-4)
proof (induction todo arbitrary: t g)
  case Nil
  then show ?case by (auto simp: copies_def)
next
  case (Cons p rest)
  let ?c = "Proc (pid p) (arrival p) (burst p) (priority p)"
  let ?L = "set (copies (p # rest))"
  have L: "?L = insert ?c (set (copies rest))" by (simp add: copies_Cons)
  from Cons.prems(3) have "pid p \<notin> set (map pid (copies rest))" by simp
  then have notin: "?c \<notin> set (copies rest)"
    by (metis Proc_fields(1) image_eqI set_map)
  from Cons.prems(2) have least: "\<forall>q\<in>set (copies rest). arrival p \<le> arrival q"
    by (auto simp: copies_def)
  define g1 where "g1 = (if t < arrival p then g @ [(''idle'', t, arrival p)] else g)"
  define t1 where "t1 = (if t < arrival p then arrival p else t)"
  have mem: "?c \<in> ?L" unfolding L by simp
  have step1: "sched_inv P t1 g1 ?L"
  proof (cases "t < arrival p")
    case True
    have late: "\<forall>q\<in>?L. t < arrival q"
      unfolding L using True least by fastforce
    have least': "\<forall>q\<in>?L. arrival ?c \<le> arrival q"
      unfolding L using least by simp
    from sched_idle [OF Cons.prems(1) assms(1) late mem least'] True
    show ?thesis by (simp add: g1_def t1_def)
  next
    case False
    with Cons.prems(1) show ?thesis by (simp add: g1_def t1_def)
  qed
  have t1: "arrival ?c \<le> t1" by (simp add: t1_def)
  from step1 mem have "0 < remaining ?c" unfolding sched_inv_def by blast
  then have pos: "0 < burst p" by simp
  have full: "burst p \<le> remaining ?c" by simp
  have L': "set (copies rest) = (if burst p < remaining ?c
      then insert (?c\<lparr>remaining := remaining ?c - burst p\<rparr>) (?L - {?c}) else ?L - {?c})"
    unfolding L using notin by simp
  from sched_run [OF step1 assms(1) mem t1 pos full L']
  have "sched_inv P (t1 + burst p) (g1 @ [(pid p, t1, t1 + burst p)]) (set (copies rest))"
    by simp
  from Cons.IH [OF this] Cons.prems(2,3)
  have "\<exists>t'. sched_inv P t' (fcfs_loop rest (t1 + burst p) (g1 @ [(pid p, t1, t1 + burst p)])) {}"
    by simp
  moreover have "fcfs_loop (p # rest) t g =
      fcfs_loop rest (t1 + burst p) (g1 @ [(pid p, t1, t1 + burst p)])"
    by (simp add: g1_def t1_def Let_def)
  ultimately show ?case by simp
qed

lemma fcfs_schedule:
  assumes "well_formed procs"
  shows "\<exists>t. sched_inv (copies procs) t (fcfs procs) {}"
proof -
  let ?S = "sort_key arrival procs"
  from assms have P: "proper (copies procs)" by (rule proper_copies)
  have "set (copies ?S) = set (copies procs)" by (simp add: copies_def)
  with sched_inv_init [OF P] have "sched_inv (copies procs) 0 [] (set (copies ?S))" by simp
  moreover have "sorted (map arrival ?S)" by simp
  moreover have "mset ?S = mset procs" by simp
  from distinct_map_mset [OF this, of pid] assms have "distinct (map pid ?S)"
    by (simp add: well_formed_def)
  ultimately show ?thesis unfolding fcfs_def by (rule fcfs_loop_inv [OF P])
qed

section \<open>The preemptive loops\<close>

lemma distinct_map_remove1: "distinct (map f xs) \<Longrightarrow> distinct (map f (remove1 x xs))"
  by (induction xs) (auto simp: image_iff dest: notin_set_remove1)

lemma distinct_map_remove1_notin:
  "distinct (map f xs) \<Longrightarrow> x \<in> set xs \<Longrightarrow> f x \<notin> f ` set (remove1 x xs)"
  by (induction xs) (auto simp: image_iff dest: notin_set_remove1)

lemma work_remove1: "x \<in> set xs \<Longrightarrow> work xs = nat (remaining x) + 1 + work (remove1 x xs)"
  by (induction xs) auto

lemma pre_measure_bounds:
  "pre_measure (t, g, r, l, c, i) \<le>
     2 * (work r + work l + (case c of None \<Rightarrow> 0 | Some c \<Rightarrow> nat (remaining c) + 1)) + 1"
  "2 * (work r + work l + (case c of None \<Rightarrow> 0 | Some c \<Rightarrow> nat (remaining c) + 1)) \<le>
     pre_measure (t, g, r, l, c, i)"
  by (simp_all add: pre_measure_def)


lemma pre_invD:
  assumes "pre_inv P (t, g, ready, rl, current, st)"
  shows "contiguous_from 0 g"
    and "\<forall>(a, s, e)\<in>set g. a = ''idle'' \<or> a \<in> pid ` set P"
    and "set ready \<union> set rl \<subseteq> set P"
    and "distinct (map pid (ready @ rl))"
    and "\<forall>p\<in>set ready. arrival p \<le> t"
    and "case current of
        None \<Rightarrow> st = None \<and> gantt_end 0 g = t
      | Some c \<Rightarrow>
          (\<exists>s0. st = Some s0 \<and> gantt_end 0 g = s0 \<and> s0 < t \<and> arrival c \<le> s0) \<and>
          0 < remaining c \<and> c\<lparr>remaining := burst c\<rparr> \<in> set P \<and>
          pid c \<notin> pid ` (set ready \<union> set rl)"
    and "\<forall>p\<in>set P. p \<in> set ready \<union> set rl \<or>
        (\<exists>c. current = Some c \<and> pid c = pid p) \<or>
        (\<exists>s e. (pid p, s, e) \<in> set g \<and> arrival p \<le> s)"
    and "gaps_wait P g"
  using assms unfolding pre_inv_def prod.case by - (elim conjE, assumption)+

lemma pre_invI:
  assumes "contiguous_from 0 g"
    and "\<forall>(a, s, e)\<in>set g. a = ''idle'' \<or> a \<in> pid ` set P"
    and "set ready \<union> set rl \<subseteq> set P"
    and "distinct (map pid (ready @ rl))"
    and "\<forall>p\<in>set ready. arrival p \<le> t"
    and "case current of
        None \<Rightarrow> st = None \<and> gantt_end 0 g = t
      | Some c \<Rightarrow>
          (\<exists>s0. st = Some s0 \<and> gantt_end 0 g = s0 \<and> s0 < t \<and> arrival c \<le> s0) \<and>
          0 < remaining c \<and> c\<lparr>remaining := burst c\<rparr> \<in> set P \<and>
          pid c \<notin> pid ` (set ready \<union> set rl)"
    and "\<forall>p\<in>set P. p \<in> set ready \<union> set rl \<or>
        (\<exists>c. current = Some c \<and> pid c = pid p) \<or>
        (\<exists>s e. (pid p, s, e) \<in> set g \<and> arrival p \<le> s)"
    and "gaps_wait P g"
  shows "pre_inv P (t, g, ready, rl, current, st)"
  using assms unfolding pre_inv_def prod.case by (intro conjI) assumption+

lemma pre_inv_admit:
  assumes "pre_inv P (t, g, ready, rl, current, st)"
  shows "pre_inv P (t, g, ready @ filter (\<lambda>p. arrival p \<le> t) rl,
           filter (\<lambda>p. \<not> arrival p \<le> t) rl, current, st)"
proof -
  let ?adm = "filter (\<lambda>p. arrival p \<le> t) rl"
  let ?rest = "filter (\<lambda>p. \<not> arrival p \<le> t) rl"
  note inv = pre_invD [OF assms]
  have m: "mset ((ready @ ?adm) @ ?rest) = mset (ready @ rl)"
    using mset_filter_split [of "\<lambda>p. arrival p \<le> t" rl] by simp
  have sets: "set (ready @ ?adm) \<union> set ?rest = set ready \<union> set rl"
    by auto
  show ?thesis
  proof (rule pre_invI)
    show "contiguous_from 0 g" by (rule inv(1))
    show "\<forall>(a, s, e)\<in>set g. a = ''idle'' \<or> a \<in> pid ` set P" by (rule inv(2))
    show "set (ready @ ?adm) \<union> set ?rest \<subseteq> set P" unfolding sets by (rule inv(3))
    show "distinct (map pid ((ready @ ?adm) @ ?rest))"
      using distinct_map_mset [OF m, of pid] inv(4) by simp
    show "\<forall>p\<in>set (ready @ ?adm). arrival p \<le> t" using inv(5) by auto
    show "case current of
        None \<Rightarrow> st = None \<and> gantt_end 0 g = t
      | Some c \<Rightarrow>
          (\<exists>s0. st = Some s0 \<and> gantt_end 0 g = s0 \<and> s0 < t \<and> arrival c \<le> s0) \<and>
          0 < remaining c \<and> c\<lparr>remaining := burst c\<rparr> \<in> set P \<and>
          pid c \<notin> pid ` (set (ready @ ?adm) \<union> set ?rest)"
      unfolding sets by (rule inv(6))
    show "\<forall>p\<in>set P. p \<in> set (ready @ ?adm) \<union> set ?rest \<or>
        (\<exists>c. current = Some c \<and> pid c = pid p) \<or>
        (\<exists>s e. (pid p, s, e) \<in> set g \<and> arrival p \<le> s)"
      unfolding sets by (rule inv(7))
    show "gaps_wait P g" by (rule inv(8))
  qed
qed

lemma close_interval_on_switch:
  assumes P: "proper P" and inv: "pre_inv P (t, g, ready, rl, current, st)"
    and chosen: "chosen \<in> set ready"
  shows "\<exists>g1 st1. close_interval current chosen st t g = Inr (g1, st1) \<and>
           contiguous_from 0 g1 \<and> gantt_end 0 g1 = t \<and>
           (\<forall>(a, s, e)\<in>set g1. a = ''idle'' \<or> a \<in> pid ` set P) \<and> set g \<subseteq> set g1 \<and>
           (\<forall>c. current = Some c \<longrightarrow> (\<exists>s0. (pid c, s0, t) \<in> set g1 \<and> arrival c \<le> s0)) \<and>
           gaps_wait P g1"
proof (cases current)
  case None
  with pre_invD [OF inv] show ?thesis by simp
next
  case (Some c)
  note i = pre_invD [OF inv]
  from i(6) Some obtain s0 where s0: "st = Some s0" "gantt_end 0 g = s0" "s0 < t" "arrival c \<le> s0"
    and c: "c\<lparr>remaining := burst c\<rparr> \<in> set P" "pid c \<notin> pid ` (set ready \<union> set rl)"
    by auto
  from chosen have "pid chosen \<in> pid ` (set ready \<union> set rl)" by blast
  with c(2) have ne: "pid chosen \<noteq> pid c" by metis
  from pid_original [OF c(1)] have "pid c \<in> pid ` set P" .
  with i(1,2,8) s0 ne Some show ?thesis
    by (auto simp: contiguous_from_append gantt_end_append gaps_wait_snoc)
qed


lemma sorted_head_mem:
  assumes "sort_key f xs = x # ys"
  shows "x \<in> set xs"
proof -
  have "x \<in> set (sort_key f xs)" unfolding assms by simp
  then show ?thesis by simp
qed

lemma tick_switch:
  fixes key :: "proc \<Rightarrow> 'k::linorder"
  assumes P: "proper P" and inv: "pre_inv P (t, g, ready, rl, current, st)"
    and sorted: "sort_key (\<lambda>x. key (snd x))
        (map (Pair False) ready @ (case current of None \<Rightarrow> [] | Some c \<Rightarrow> [(True, c)])) =
        (False, chosen) # xs"
  shows "\<exists>s'. preemptive_tick key (t, g, ready, rl, current, st) = Inl s' \<and> pre_inv P s' \<and>
           pre_measure s' < pre_measure (t, g, ready, rl, current, st)"
proof -
  note i = pre_invD [OF inv]
  from sorted_head_mem [OF sorted] have chosen: "chosen \<in> set ready"
    by (auto split: option.splits)
  with i(3) have cP: "chosen \<in> set P" by auto
  with P have fresh: "remaining chosen = burst chosen" "0 < burst chosen"
    by (simp_all add: proper_def)
  from i(5) chosen have arrived: "arrival chosen \<le> t" by simp
  from fresh(1) have same: "chosen\<lparr>remaining := burst chosen\<rparr> = chosen" by simp
  from cP have inP: "chosen\<lparr>remaining := burst chosen\<rparr> \<in> set P" by (simp only: same)
  from close_interval_on_switch [OF P inv chosen]
  obtain g1 st1 where close: "close_interval current chosen st t g = Inr (g1, st1)"
    and g1: "contiguous_from 0 g1" "gantt_end 0 g1 = t"
      "\<forall>(a, s, e)\<in>set g1. a = ''idle'' \<or> a \<in> pid ` set P" "set g \<subseteq> set g1"
      "\<forall>c. current = Some c \<longrightarrow> (\<exists>s0. (pid c, s0, t) \<in> set g1 \<and> arrival c \<le> s0)"
      "gaps_wait P g1"
    by blast
  let ?ready = "remove1 chosen ready"
  let ?c = "chosen\<lparr>remaining := remaining chosen - 1\<rparr>"
  from chosen have ne: "ready \<noteq> []" by auto
  have sub: "set ?ready \<union> set rl \<subseteq> set P" using i(3) set_remove1_subset [of chosen ready] by blast
  have rm: "remove1 chosen (ready @ rl) = ?ready @ rl" using chosen by (simp add: remove1_append)
  from distinct_map_remove1 [OF i(4), of chosen] have dist: "distinct (map pid (?ready @ rl))"
    by (simp only: rm)
  from distinct_map_remove1_notin [OF i(4), of chosen] chosen
  have notin: "pid chosen \<notin> pid ` (set ?ready \<union> set rl)" by (simp only: rm set_append) simp
  have arr: "\<forall>p\<in>set ?ready. arrival p \<le> t + 1"
    using i(5) set_remove1_subset [of chosen ready] by fastforce
  have gone: "p \<in> set ?ready \<union> set rl" if "p \<in> set ready \<union> set rl" "p \<noteq> chosen" for p
    using that by (auto simp: in_set_remove1)
  have closed: "\<exists>s e. (pid p, s, e) \<in> set g1 \<and> arrival p \<le> s"
    if "p \<in> set P" "current = Some c" "pid c = pid p" for p c
  proof -
    from i(6) that(2) have "c\<lparr>remaining := burst c\<rparr> \<in> set P" by simp
    from original_unique [OF P that(1) this] that(3) have "arrival p = arrival c" by simp
    with g1(5) that(2,3) show ?thesis by metis
  qed
  have w: "work ready = nat (burst chosen) + 1 + work ?ready"
    using work_remove1 [OF chosen] fresh by simp
  have before: "2 * (nat (burst chosen) + 1 + work ?ready + work rl) \<le>
      pre_measure (t, g, ready, rl, current, st)"
  proof -
    have "2 * (nat (burst chosen) + 1 + work ?ready + work rl) \<le>
        2 * (work ready + work rl + (case current of None \<Rightarrow> 0 | Some c \<Rightarrow> nat (remaining c) + 1))"
      using w by simp
    also have "\<dots> \<le> pre_measure (t, g, ready, rl, current, st)" by (rule pre_measure_bounds)
    finally show ?thesis .
  qed
  show ?thesis
  proof (cases "burst chosen = 1")
    case True
    let ?s' = "(t + 1, g1 @ [(pid chosen, t, t + 1)], ?ready, rl, None, None)"
    have body: "preemptive_tick key (t, g, ready, rl, current, st) = Inl ?s'"
      using ne sorted close chosen fresh True by (simp add: Let_def)
    have "pre_inv P ?s'"
    proof (rule pre_invI)
      show "contiguous_from 0 (g1 @ [(pid chosen, t, t + 1)])"
        using g1 by (simp add: contiguous_from_append)
      show "\<forall>(a, s, e)\<in>set (g1 @ [(pid chosen, t, t + 1)]). a = ''idle'' \<or> a \<in> pid ` set P"
        using g1(3) cP by auto
      show "gaps_wait P (g1 @ [(pid chosen, t, t + 1)])"
        using g1(6) cP by (simp add: gaps_wait_snoc)
      show "case None of
            None \<Rightarrow> None = None \<and> gantt_end 0 (g1 @ [(pid chosen, t, t + 1)]) = t + 1
          | Some c \<Rightarrow>
              (\<exists>s0. None = Some s0 \<and> gantt_end 0 (g1 @ [(pid chosen, t, t + 1)]) = s0 \<and>
                 s0 < t + 1 \<and> arrival c \<le> s0) \<and>
              0 < remaining c \<and> c\<lparr>remaining := burst c\<rparr> \<in> set P \<and>
              pid c \<notin> pid ` (set ?ready \<union> set rl)"
        by (simp add: gantt_end_append)
      show "\<forall>p\<in>set P. p \<in> set ?ready \<union> set rl \<or>
          (\<exists>c. None = Some c \<and> pid c = pid p) \<or>
          (\<exists>s e. (pid p, s, e) \<in> set (g1 @ [(pid chosen, t, t + 1)]) \<and> arrival p \<le> s)"
      proof
        fix p assume p: "p \<in> set P"
        from i(7) p consider "p \<in> set ready \<union> set rl" | c where "current = Some c" "pid c = pid p"
          | "\<exists>s e. (pid p, s, e) \<in> set g \<and> arrival p \<le> s" by blast
        then show "p \<in> set ?ready \<union> set rl \<or>
          (\<exists>c. None = Some c \<and> pid c = pid p) \<or>
          (\<exists>s e. (pid p, s, e) \<in> set (g1 @ [(pid chosen, t, t + 1)]) \<and> arrival p \<le> s)"
        proof cases
          case 1
          show ?thesis
          proof (cases "p = chosen")
            case True
            with arrived show ?thesis by auto
          next
            case False
            with gone [OF 1] show ?thesis by blast
          qed
        next
          case 2
          from closed [OF p 2] show ?thesis by auto
        next
          case 3
          with g1(4) show ?thesis by auto
        qed
      qed
    qed (use sub dist arr in simp_all)
    moreover have "pre_measure ?s' < pre_measure (t, g, ready, rl, current, st)"
    proof -
      have "pre_measure ?s' \<le> 2 * (work ?ready + work rl + 0) + 1"
        using pre_measure_bounds(1) [of "t + 1" "g1 @ [(pid chosen, t, t + 1)]" ?ready rl None None]
        by simp
      also have "\<dots> < 2 * (nat (burst chosen) + 1 + work ?ready + work rl)" by simp
      also note before
      finally show ?thesis .
    qed
    ultimately show ?thesis using body by blast
  next
    case False
    let ?s' = "(t + 1, g1, ?ready, rl, Some ?c, Some t)"
    have body: "preemptive_tick key (t, g, ready, rl, current, st) = Inl ?s'"
      using ne sorted close chosen fresh False by (simp add: Let_def)
    have "pre_inv P ?s'"
    proof (rule pre_invI)
      show "case Some ?c of
            None \<Rightarrow> Some t = None \<and> gantt_end 0 g1 = t + 1
          | Some c \<Rightarrow>
              (\<exists>s0. Some t = Some s0 \<and> gantt_end 0 g1 = s0 \<and> s0 < t + 1 \<and> arrival c \<le> s0) \<and>
              0 < remaining c \<and> c\<lparr>remaining := burst c\<rparr> \<in> set P \<and>
              pid c \<notin> pid ` (set ?ready \<union> set rl)"
        using g1(2) arrived fresh False inP notin by simp
      show "\<forall>p\<in>set P. p \<in> set ?ready \<union> set rl \<or>
          (\<exists>c. Some ?c = Some c \<and> pid c = pid p) \<or>
          (\<exists>s e. (pid p, s, e) \<in> set g1 \<and> arrival p \<le> s)"
      proof
        fix p assume p: "p \<in> set P"
        from i(7) p consider "p \<in> set ready \<union> set rl" | c where "current = Some c" "pid c = pid p"
          | "\<exists>s e. (pid p, s, e) \<in> set g \<and> arrival p \<le> s" by blast
        then show "p \<in> set ?ready \<union> set rl \<or>
          (\<exists>c. Some ?c = Some c \<and> pid c = pid p) \<or>
          (\<exists>s e. (pid p, s, e) \<in> set g1 \<and> arrival p \<le> s)"
        proof cases
          case 1
          show ?thesis
          proof (cases "p = chosen")
            case True
            then show ?thesis by simp
          next
            case False
            with gone [OF 1] show ?thesis by blast
          qed
        next
          case 2
          from closed [OF p 2] show ?thesis by auto
        next
          case 3
          with g1(4) show ?thesis by auto
        qed
      qed
    qed (use sub dist arr g1 in simp_all)
    moreover have "pre_measure ?s' < pre_measure (t, g, ready, rl, current, st)"
    proof -
      have "pre_measure ?s' \<le> 2 * (work ?ready + work rl + (nat (remaining ?c) + 1)) + 1"
        using pre_measure_bounds(1) [of "t + 1" g1 ?ready rl "Some ?c" "Some t"] by simp
      also have "\<dots> < 2 * (nat (burst chosen) + 1 + work ?ready + work rl)"
        using fresh by simp
      also note before
      finally show ?thesis .
    qed
    ultimately show ?thesis using body by blast
  qed
qed


lemma tick_continue:
  fixes key :: "proc \<Rightarrow> 'k::linorder"
  assumes P: "proper P" and inv: "pre_inv P (t, g, ready, rl, current, st)"
    and sorted: "sort_key (\<lambda>x. key (snd x))
        (map (Pair False) ready @ (case current of None \<Rightarrow> [] | Some c \<Rightarrow> [(True, c)])) =
        (True, chosen) # xs"
  shows "\<exists>s'. preemptive_tick key (t, g, ready, rl, current, st) = Inl s' \<and> pre_inv P s' \<and>
           pre_measure s' < pre_measure (t, g, ready, rl, current, st)"
proof -
  note i = pre_invD [OF inv]
  from sorted_head_mem [OF sorted] have cur: "current = Some chosen"
    by (auto split: option.splits)
  from i(6) cur obtain s0 where s0: "st = Some s0" "gantt_end 0 g = s0" "s0 < t" "arrival chosen \<le> s0"
    and c: "0 < remaining chosen" "chosen\<lparr>remaining := burst chosen\<rparr> \<in> set P"
      "pid chosen \<notin> pid ` (set ready \<union> set rl)"
    by auto
  from c(3) have notin: "chosen \<notin> set ready" by blast
  let ?c = "chosen\<lparr>remaining := remaining chosen - 1\<rparr>"
  have close: "close_interval current chosen st t g = Inr (g, st)" by (simp add: cur)
  have before: "2 * (work ready + work rl + (nat (remaining chosen) + 1)) \<le>
      pre_measure (t, g, ready, rl, current, st)"
    using pre_measure_bounds(2) [of ready rl current t g st] by (simp add: cur)
  have rest: "p \<in> set ready \<union> set rl \<or> (\<exists>s e. (pid p, s, e) \<in> set g \<and> arrival p \<le> s)"
    if "p \<in> set P" "pid chosen \<noteq> pid p" for p
    using i(7) that cur by auto
  have mine: "arrival p \<le> s0" if "p \<in> set P" "pid chosen = pid p" for p
  proof -
    from original_unique [OF P that(1) c(2)] that(2) have "arrival p = arrival chosen" by simp
    with s0(4) show ?thesis by simp
  qed
  show ?thesis
  proof (cases "remaining chosen = 1")
    case True
    let ?s' = "(t + 1, g @ [(pid chosen, s0, t + 1)], ready, rl, None, None)"
    have body: "preemptive_tick key (t, g, ready, rl, current, st) = Inl ?s'"
      using sorted close notin True s0(1) cur by (simp add: Let_def)
    have "pre_inv P ?s'"
    proof (rule pre_invI)
      show "contiguous_from 0 (g @ [(pid chosen, s0, t + 1)])"
        using i(1) s0 by (simp add: contiguous_from_append)
      show "\<forall>(a, s, e)\<in>set (g @ [(pid chosen, s0, t + 1)]). a = ''idle'' \<or> a \<in> pid ` set P"
        using i(2) pid_original [OF c(2)] by auto
      show "gaps_wait P (g @ [(pid chosen, s0, t + 1)])"
        using i(8) pid_original [OF c(2)] by (simp add: gaps_wait_snoc)
      show "\<forall>p\<in>set ready. arrival p \<le> t + 1" using i(5) by fastforce
      show "case None of
            None \<Rightarrow> None = None \<and> gantt_end 0 (g @ [(pid chosen, s0, t + 1)]) = t + 1
          | Some c \<Rightarrow>
              (\<exists>sa. None = Some sa \<and> gantt_end 0 (g @ [(pid chosen, s0, t + 1)]) = sa \<and>
                 sa < t + 1 \<and> arrival c \<le> sa) \<and>
              0 < remaining c \<and> c\<lparr>remaining := burst c\<rparr> \<in> set P \<and>
              pid c \<notin> pid ` (set ready \<union> set rl)"
        by (simp add: gantt_end_append)
      show "\<forall>p\<in>set P. p \<in> set ready \<union> set rl \<or>
          (\<exists>c. None = Some c \<and> pid c = pid p) \<or>
          (\<exists>s e. (pid p, s, e) \<in> set (g @ [(pid chosen, s0, t + 1)]) \<and> arrival p \<le> s)"
      proof
        fix p assume p: "p \<in> set P"
        show "p \<in> set ready \<union> set rl \<or>
          (\<exists>c. None = Some c \<and> pid c = pid p) \<or>
          (\<exists>s e. (pid p, s, e) \<in> set (g @ [(pid chosen, s0, t + 1)]) \<and> arrival p \<le> s)"
        proof (cases "pid chosen = pid p")
          case True
          with mine [OF p] show ?thesis by auto
        next
          case False
          with rest [OF p] show ?thesis by auto
        qed
      qed
    qed (use i(3,4) in simp_all)
    moreover have "pre_measure ?s' < pre_measure (t, g, ready, rl, current, st)"
    proof -
      have "pre_measure ?s' \<le> 2 * (work ready + work rl + 0) + 1"
        using pre_measure_bounds(1) [of "t + 1" "g @ [(pid chosen, s0, t + 1)]" ready rl None None]
        by simp
      also have "\<dots> < 2 * (work ready + work rl + (nat (remaining chosen) + 1))" by simp
      also note before
      finally show ?thesis .
    qed
    ultimately show ?thesis using body by blast
  next
    case False
    let ?s' = "(t + 1, g, ready, rl, Some ?c, Some s0)"
    have body: "preemptive_tick key (t, g, ready, rl, current, st) = Inl ?s'"
      using sorted close notin False s0(1) cur by (simp add: Let_def)
    have "pre_inv P ?s'"
    proof (rule pre_invI)
      show "\<forall>p\<in>set ready. arrival p \<le> t + 1" using i(5) by fastforce
      show "case Some ?c of
            None \<Rightarrow> Some s0 = None \<and> gantt_end 0 g = t + 1
          | Some c \<Rightarrow>
              (\<exists>sa. Some s0 = Some sa \<and> gantt_end 0 g = sa \<and> sa < t + 1 \<and> arrival c \<le> sa) \<and>
              0 < remaining c \<and> c\<lparr>remaining := burst c\<rparr> \<in> set P \<and>
              pid c \<notin> pid ` (set ready \<union> set rl)"
        using s0 c False by simp
      show "\<forall>p\<in>set P. p \<in> set ready \<union> set rl \<or>
          (\<exists>c. Some ?c = Some c \<and> pid c = pid p) \<or>
          (\<exists>s e. (pid p, s, e) \<in> set g \<and> arrival p \<le> s)"
      proof
        fix p assume p: "p \<in> set P"
        show "p \<in> set ready \<union> set rl \<or>
          (\<exists>c. Some ?c = Some c \<and> pid c = pid p) \<or>
          (\<exists>s e. (pid p, s, e) \<in> set g \<and> arrival p \<le> s)"
        proof (cases "pid chosen = pid p")
          case True
          then show ?thesis by simp
        next
          case False
          with rest [OF p] show ?thesis by auto
        qed
      qed
    qed (use i(1,2,3,4,8) in simp_all)
    moreover have "pre_measure ?s' < pre_measure (t, g, ready, rl, current, st)"
    proof -
      have "pre_measure ?s' \<le> 2 * (work ready + work rl + (nat (remaining ?c) + 1)) + 1"
        using pre_measure_bounds(1) [of "t + 1" g ready rl "Some ?c" "Some s0"] by simp
      also have "\<dots> < 2 * (work ready + work rl + (nat (remaining chosen) + 1))"
        using c(1) by simp
      also note before
      finally show ?thesis .
    qed
    ultimately show ?thesis using body by blast
  qed
qed

lemma tick_idle:
  fixes key :: "proc \<Rightarrow> 'k::linorder"
  assumes P: "proper P" and inv: "pre_inv P (t, g, [], rl, None, st)"
    and late: "\<forall>p\<in>set rl. t < arrival p"
  shows "case preemptive_tick key (t, g, [], rl, None, st) of
           Inl s' \<Rightarrow> pre_inv P s' \<and> pre_measure s' < pre_measure (t, g, [], rl, None, st)
         | Inr r \<Rightarrow> \<exists>g'. r = Inr g' \<and> served P g'"
proof (cases "rl = []")
  case True
  note i = pre_invD [OF inv]
  from i(7) True have "\<forall>p\<in>set P. \<exists>s e. (pid p, s, e) \<in> set g \<and> arrival p \<le> s" by simp
  with i(1,2,8) True show ?thesis by (simp add: served_def)
next
  case False
  note i = pre_invD [OF inv]
  from False obtain m where m: "py_min arrival rl = Some m" by (cases "py_min arrival rl") auto
  from py_min_Some [OF m] have mm: "m \<in> set rl" by simp
  with late have lt: "t < arrival m" by simp
  let ?s' = "(arrival m, g @ [(''idle'', t, arrival m)], [], rl, None, st)"
  have body: "preemptive_tick key (t, g, [], rl, None, st) = Inl ?s'"
    using False m by (simp add: Let_def)
  from i(6) have st: "st = None" "gantt_end 0 g = t" by simp_all
  have "pre_inv P ?s'"
  proof (rule pre_invI)
    show "contiguous_from 0 (g @ [(''idle'', t, arrival m)])"
      using i(1) st lt by (simp add: contiguous_from_append)
    show "\<forall>(a, s, e)\<in>set (g @ [(''idle'', t, arrival m)]). a = ''idle'' \<or> a \<in> pid ` set P"
      using i(2) by auto
    from mm i(3) have "m \<in> set P" by auto
    with lt have "\<exists>p\<in>set P. t < arrival p" by blast
    with i(8) show "gaps_wait P (g @ [(''idle'', t, arrival m)])"
      by (simp add: gaps_wait_snoc)
    show "case None of
          None \<Rightarrow> st = None \<and> gantt_end 0 (g @ [(''idle'', t, arrival m)]) = arrival m
        | Some c \<Rightarrow>
            (\<exists>sa. st = Some sa \<and> gantt_end 0 (g @ [(''idle'', t, arrival m)]) = sa \<and>
               sa < arrival m \<and> arrival c \<le> sa) \<and>
            0 < remaining c \<and> c\<lparr>remaining := burst c\<rparr> \<in> set P \<and>
            pid c \<notin> pid ` (set [] \<union> set rl)"
      using st by (simp add: gantt_end_append)
    show "\<forall>p\<in>set P. p \<in> set [] \<union> set rl \<or>
        (\<exists>c. None = Some c \<and> pid c = pid p) \<or>
        (\<exists>s e. (pid p, s, e) \<in> set (g @ [(''idle'', t, arrival m)]) \<and> arrival p \<le> s)"
      using i(7) by fastforce
  qed (use i(3,4) in simp_all)
  moreover from mm have "\<not> (\<forall>p\<in>set rl. arrival m < arrival p)" by auto
  with late have "pre_measure ?s' < pre_measure (t, g, [], rl, None, st)"
    by (simp add: pre_measure_def)
  ultimately show ?thesis unfolding body by simp
qed


declare preemptive_tick.simps [simp del]

lemma sort_key_nonempty: "xs \<noteq> [] \<Longrightarrow> sort_key f xs \<noteq> []"
  by (metis length_0_conv length_sort)

lemma pre_measure_admit:
  "pre_measure (t, g, ready @ filter (\<lambda>p. arrival p \<le> t) rl,
       filter (\<lambda>p. \<not> arrival p \<le> t) rl, c, st) \<le> pre_measure (t, g, ready, rl, c, st)"
proof -
  let ?adm = "filter (\<lambda>p. arrival p \<le> t) rl"
  let ?rest = "filter (\<lambda>p. \<not> arrival p \<le> t) rl"
  have w: "work ?adm + work ?rest = work rl" by (rule work_filter)
  have "ready = [] \<and> (\<forall>p\<in>set rl. t < arrival p)" if "ready @ ?adm = []"
    using that by (auto simp: filter_empty_conv)
  with w show ?thesis by (auto simp: pre_measure_def)
qed

lemma preemptive_body_step:
  fixes key :: "proc \<Rightarrow> 'k::linorder"
  assumes P: "proper P" and inv: "pre_inv P s"
  shows "case preemptive_body key s of
           Inl s' \<Rightarrow> pre_inv P s' \<and> pre_measure s' < pre_measure s
         | Inr r \<Rightarrow> \<exists>g'. r = Inr g' \<and> served P g'"
proof -
  obtain t g ready rl current st where s: "s = (t, g, ready, rl, current, st)"
    by (cases s) auto
  let ?adm = "filter (\<lambda>p. arrival p \<le> t) rl"
  let ?rest = "filter (\<lambda>p. \<not> arrival p \<le> t) rl"
  let ?s1 = "(t, g, ready @ ?adm, ?rest, current, st)"
  let ?cands = "map (Pair False) (ready @ ?adm) @
                  (case current of None \<Rightarrow> [] | Some c \<Rightarrow> [(True, c)])"
  note i = pre_invD [OF inv [unfolded s]]
  show ?thesis
  proof (cases "rl = [] \<and> ready = [] \<and> current = None")
    case True
    with i(7) have "\<forall>p\<in>set P. \<exists>s e. (pid p, s, e) \<in> set g \<and> arrival p \<le> s" by simp
    with i(1,2,8) True show ?thesis by (simp add: s served_def)
  next
    case False
    then have body: "preemptive_body key s = preemptive_tick key ?s1"
      by (auto simp: s admit_eq)
    from pre_inv_admit [OF inv [unfolded s]] have inv1: "pre_inv P ?s1" .
    have le: "pre_measure ?s1 \<le> pre_measure s" unfolding s by (rule pre_measure_admit)
    have step: "case preemptive_tick key ?s1 of
           Inl s' \<Rightarrow> pre_inv P s' \<and> pre_measure s' < pre_measure ?s1
         | Inr r \<Rightarrow> \<exists>g'. r = Inr g' \<and> served P g'"
    proof (cases "?cands = []")
      case True
      then have e: "ready @ ?adm = []" "current = None" by (auto split: option.splits)
      have "\<forall>p\<in>set ?rest. t < arrival p" by auto
      from tick_idle [OF P inv1 [unfolded e] this, of key] show ?thesis unfolding e .
    next
      case False
      then have "sort_key (\<lambda>x. key (snd x)) ?cands \<noteq> []" by (rule sort_key_nonempty)
      then obtain flag chosen xs where sorted: "sort_key (\<lambda>x. key (snd x)) ?cands = (flag, chosen) # xs"
        by (cases "sort_key (\<lambda>x. key (snd x)) ?cands") auto
      have "\<exists>s'. preemptive_tick key ?s1 = Inl s' \<and> pre_inv P s' \<and>
           pre_measure s' < pre_measure ?s1"
      proof (cases flag)
        case True
        then have f: "flag = True" by simp
        from tick_continue [OF P inv1 sorted [unfolded f]] show ?thesis .
      next
        case False
        then have f: "flag = False" by simp
        from tick_switch [OF P inv1 sorted [unfolded f]] show ?thesis .
      qed
      then obtain s' where b: "preemptive_tick key ?s1 = Inl s'"
        and s': "pre_inv P s'" "pre_measure s' < pre_measure ?s1" by blast
      from s' show ?thesis unfolding b by simp
    qed
    then obtain x where x: "preemptive_tick key ?s1 = x"
      and cx: "case x of
           Inl s' \<Rightarrow> pre_inv P s' \<and> pre_measure s' < pre_measure ?s1
         | Inr r \<Rightarrow> \<exists>g'. r = Inr g' \<and> served P g'" by simp
    from cx le show ?thesis unfolding body x by (cases x) auto
  qed
qed

lemma pre_inv_init: "proper P \<Longrightarrow> pre_inv P (0, [], [], P, None, None)"
  by (rule pre_invI) (simp_all add: proper_def)

lemma preemptive_returns:
  fixes key :: "proc \<Rightarrow> 'k::linorder"
  assumes "proper P"
  shows "\<exists>g. iterate (preemptive_body key) (0, [], [], P, None, None) = Some (Inr g) \<and> served P g"
proof -
  have "\<exists>r. iterate (preemptive_body key) (0, [], [], P, None, None) = Some r \<and>
          (\<exists>g. r = Inr g \<and> served P g)"
  proof (rule iterate_total [where R = "measure pre_measure" and I = "pre_inv P"])
    show "pre_inv P (0, [], [], P, None, None)" using assms by (rule pre_inv_init)
  next
    fix s assume "pre_inv P s"
    from preemptive_body_step [OF assms this, of key]
    show "case preemptive_body key s of
            Inl s' \<Rightarrow> pre_inv P s' \<and> (s', s) \<in> measure pre_measure
          | Inr r \<Rightarrow> \<exists>g. r = Inr g \<and> served P g"
      by (auto split: sum.splits)
  qed simp
  then show ?thesis by blast
qed

section \<open>What each policy returns on a well-formed input\<close>

lemma set_copies: "set (copies procs) = (\<lambda>p. Proc (pid p) (arrival p) (burst p) (priority p)) ` set procs"
  by (simp add: copies_def)

lemma ball_copies:
  "(\<forall>p\<in>set (copies procs). Q (pid p) (arrival p) (burst p)) \<longleftrightarrow>
   (\<forall>p\<in>set procs. Q (pid p) (arrival p) (burst p))"
  by (simp add: set_copies)

lemma bex_copies:
  "(\<exists>p\<in>set (copies procs). Q (pid p) (arrival p) (burst p)) \<longleftrightarrow>
   (\<exists>p\<in>set procs. Q (pid p) (arrival p) (burst p))"
  by (simp add: set_copies)

lemma pid_copies: "pid ` set (copies procs) = pid ` set procs"
  by (simp add: set_copies image_image)

lemma next_arrival_copies: "next_arrival (copies procs) t = next_arrival procs t"
proof -
  have "arrival ` {p \<in> set (copies procs). t < arrival p} = arrival ` {p \<in> set procs. t < arrival p}"
    by (auto simp: set_copies image_iff) (metis Proc_fields(2))+
  then show ?thesis by (simp add: next_arrival_def)
qed

lemma interval_justified_copies:
  "interval_justified (copies procs) before iv = interval_justified procs before iv"
proof -
  obtain a s e where iv: "iv = (a, s, e)" by (cases iv) auto
  have 1: "(\<forall>p\<in>set (copies procs). arrival p \<le> s \<longrightarrow> run_time (pid p) before = burst p) \<longleftrightarrow>
           (\<forall>p\<in>set procs. arrival p \<le> s \<longrightarrow> run_time (pid p) before = burst p)"
    by (rule ball_copies [of _ "\<lambda>i a b. a \<le> s \<longrightarrow> run_time i before = b"])
  have 2: "(\<exists>p\<in>set (copies procs). s < arrival p) \<longleftrightarrow> (\<exists>p\<in>set procs. s < arrival p)"
    by (rule bex_copies [of _ "\<lambda>i a b. s < a"])
  have 3: "(\<exists>p\<in>set (copies procs). pid p = a \<and> arrival p \<le> s \<and> run_time a before < burst p) \<longleftrightarrow>
           (\<exists>p\<in>set procs. pid p = a \<and> arrival p \<le> s \<and> run_time a before < burst p)"
    by (rule bex_copies [of _ "\<lambda>i ar b. i = a \<and> ar \<le> s \<and> run_time a before < b"])
  show ?thesis unfolding iv interval_justified.simps 1 2 3 next_arrival_copies ..
qed

lemma timeline_justified_copies:
  "timeline_justified (copies procs) before g = timeline_justified procs before g"
  by (induction g arbitrary: before) (simp_all add: interval_justified_copies)

lemma gaps_wait_copies: "gaps_wait (copies procs) g = gaps_wait procs g"
proof -
  have "(\<exists>p\<in>set (copies procs). s < arrival p) \<longleftrightarrow> (\<exists>p\<in>set procs. s < arrival p)" for s
    by (rule bex_copies [of _ "\<lambda>i a b. s < a"])
  then show ?thesis by (simp add: gaps_wait_def pid_copies)
qed

lemma served_copies: "served (copies procs) g = served procs g"
proof -
  have "(\<forall>p\<in>set (copies procs). \<exists>s e. (pid p, s, e) \<in> set g \<and> arrival p \<le> s) \<longleftrightarrow>
        (\<forall>p\<in>set procs. \<exists>s e. (pid p, s, e) \<in> set g \<and> arrival p \<le> s)"
    by (rule ball_copies [of _ "\<lambda>i a b. \<exists>s e. (i, s, e) \<in> set g \<and> a \<le> s"])
  then show ?thesis by (simp add: served_def pid_copies gaps_wait_copies)
qed

lemma sched_inv_final:
  assumes "sched_inv (copies procs) t g {}"
  shows "schedule procs g"
proof -
  from assms have c: "contiguous_from 0 g"
    and a: "\<forall>(a, s, e)\<in>set g. a = ''idle'' \<or> a \<in> pid ` set (copies procs)"
    and f: "\<forall>p\<in>set (copies procs).
        arrival p \<le> t \<and> (pid p \<noteq> ''idle'' \<longrightarrow> run_time (pid p) g = burst p) \<and>
        (\<exists>s e. (pid p, s, e) \<in> set g \<and> arrival p \<le> s)"
    and j: "''idle'' \<notin> pid ` set (copies procs) \<longrightarrow> timeline_justified (copies procs) [] g"
    and w: "gaps_wait (copies procs) g"
    by (simp_all add: sched_inv_def)
  from c a f w have "served (copies procs) g" by (simp add: served_def)
  then have 1: "served procs g" by (simp only: served_copies)
  from f have "\<forall>p\<in>set (copies procs). pid p \<noteq> ''idle'' \<longrightarrow> run_time (pid p) g = burst p" by blast
  then have 2: "\<forall>p\<in>set procs. pid p \<noteq> ''idle'' \<longrightarrow> run_time (pid p) g = burst p"
    by (simp only: ball_copies [of _ "\<lambda>i a b. i \<noteq> ''idle'' \<longrightarrow> run_time i g = b"])
  from j have 3: "''idle'' \<notin> pid ` set procs \<longrightarrow> timeline_justified procs [] g"
    by (simp only: pid_copies timeline_justified_copies)
  from 1 2 3 show ?thesis by (simp add: schedule_def)
qed

lemma fcfs_ok: "well_formed procs \<Longrightarrow> schedule procs (fcfs procs)"
  using fcfs_schedule sched_inv_final by blast

lemma sjf_nonpreemptive_ok:
  assumes "well_formed procs"
  shows "\<exists>g. sjf_nonpreemptive procs = Some (Inr g) \<and> schedule procs g"
proof -
  have "sjf_nonpreemptive_body = nonpreemptive_body (\<lambda>x. (burst x, arrival x))"
    by (rule ext) (rule sjf_nonpreemptive_body_eq)
  with nonpreemptive_returns [OF proper_copies [OF assms], of "\<lambda>x. (burst x, arrival x)"]
  show ?thesis unfolding sjf_nonpreemptive_def using sched_inv_final by auto
qed

lemma priority_nonpreemptive_ok:
  assumes "well_formed procs"
  shows "\<exists>g. priority_nonpreemptive procs = Some (Inr g) \<and> schedule procs g"
  using nonpreemptive_returns [OF proper_copies [OF assms], of "\<lambda>x. (priority x, arrival x)"]
  unfolding priority_nonpreemptive_def using sched_inv_final by blast

lemma round_robin_ok:
  assumes "well_formed procs" "0 < quantum"
  shows "\<exists>g. round_robin procs quantum = Some (Inr g) \<and> schedule procs g"
  using round_robin_loop_returns [OF proper_copies [OF assms(1)] assms(2)]
  unfolding round_robin_def using sched_inv_final by blast

lemma sjf_preemptive_ok:
  assumes "well_formed procs"
  shows "\<exists>g. sjf_preemptive procs = Some (Inr g) \<and> served procs g"
  using preemptive_returns [OF proper_copies [OF assms], of "\<lambda>x. (remaining x, arrival x)"]
  unfolding sjf_preemptive_def served_copies .

lemma priority_preemptive_ok:
  assumes "well_formed procs"
  shows "\<exists>g. priority_preemptive procs = Some (Inr g) \<and> served procs g"
  using preemptive_returns [OF proper_copies [OF assms], of "\<lambda>x. (priority x, arrival x, remaining x)"]
  unfolding priority_preemptive_def served_copies .

section \<open>Contiguous timelines, and the six policies behind the selector\<close>

lemma contiguous_bounds:
  "contiguous_from t g \<Longrightarrow> iv \<in> set g \<Longrightarrow>
     t \<le> start_of iv \<and> start_of iv < end_of iv \<and> end_of iv \<le> gantt_end t g"
proof (induction t g rule: contiguous_from.induct)
  case (1 t)
  then show ?case by simp
next
  case (2 t a s e g)
  have le: "e \<le> gantt_end e g" if "contiguous_from e g" for e g
    using that by (induction e g rule: contiguous_from.induct) auto
  from 2 le [of e g] show ?case by (auto simp: start_of_def end_of_def)
qed

lemma contiguous_no_overlap:
  "contiguous_from t g \<Longrightarrow> sorted_wrt (\<lambda>x y. end_of x \<le> start_of y) g"
proof (induction t g rule: contiguous_from.induct)
  case (1 t)
  then show ?case by simp
next
  case (2 t a s e g)
  from 2 contiguous_bounds [of e g] show ?case by (auto simp: end_of_def)
qed

lemma contiguous_sorted: "contiguous_from t g \<Longrightarrow> sorted (map start_of g)"
proof (induction t g rule: contiguous_from.induct)
  case (1 t)
  then show ?case by simp
next
  case (2 t a s e g)
  then have c: "contiguous_from e g" and lt: "s < e" by simp_all
  have "s \<le> start_of iv" if "iv \<in> set g" for iv
    using contiguous_bounds [OF c that] lt by simp
  with "2.IH" c show ?case by (simp add: start_of_def)
qed

lemma contiguous_adjacent:
  "contiguous_from t g \<Longrightarrow> Suc i < length g \<Longrightarrow> end_of (g ! i) = start_of (g ! Suc i)"
proof (induction t g arbitrary: i rule: contiguous_from.induct)
  case (1 t)
  then show ?case by simp
next
  case (2 t a s e g)
  show ?case
  proof (cases i)
    case 0
    with 2 show ?thesis by (cases g) (auto simp: start_of_def end_of_def)
  next
    case (Suc j)
    with 2 show ?thesis by simp
  qed
qed

lemma contiguous_hd: "contiguous_from t g \<Longrightarrow> g \<noteq> [] \<Longrightarrow> start_of (hd g) = t"
  by (cases g) (auto simp: start_of_def)

lemma contiguous_cover:
  "contiguous_from t g \<Longrightarrow> t \<le> x \<Longrightarrow> x < gantt_end t g \<Longrightarrow>
     \<exists>iv\<in>set g. start_of iv \<le> x \<and> x < end_of iv"
proof (induction t g rule: contiguous_from.induct)
  case (1 t)
  then show ?case by simp
next
  case (2 t a s e g)
  show ?case
  proof (cases "x < e")
    case True
    with 2 show ?thesis by (auto simp: start_of_def end_of_def)
  next
    case False
    with 2 show ?thesis by auto
  qed
qed

lemma select_algorithm_simps:
  "select_algorithm ''fcfs'' q p = Some (Inr (fcfs p))"
  "select_algorithm ''sjf-np'' q p = sjf_nonpreemptive p"
  "select_algorithm ''sjf-p'' q p = sjf_preemptive p"
  "select_algorithm ''rr'' q p = round_robin p q"
  "select_algorithm ''priority-np'' q p = priority_nonpreemptive p"
  "select_algorithm ''priority-p'' q p = priority_preemptive p"
  by (simp_all add: select_algorithm_def)

lemma select_schedule:
  assumes "well_formed procs" "k \<in> set list_policy_keys" "k = ''rr'' \<longrightarrow> 0 < quantum"
  shows "\<exists>g. select_algorithm k quantum procs = Some (Inr g) \<and> schedule procs g"
proof -
  from assms(2) have "k = ''fcfs'' \<or> k = ''sjf-np'' \<or> k = ''rr'' \<or> k = ''priority-np''"
    by (simp add: list_policy_keys_def)
  then show ?thesis
  proof (elim disjE)
    assume k: "k = ''fcfs''"
    from fcfs_ok [OF assms(1)] show ?thesis unfolding k select_algorithm_simps by simp
  next
    assume k: "k = ''sjf-np''"
    from sjf_nonpreemptive_ok [OF assms(1)] show ?thesis unfolding k select_algorithm_simps .
  next
    assume k: "k = ''rr''"
    with assms(3) have "0 < quantum" by simp
    from round_robin_ok [OF assms(1) this] show ?thesis unfolding k select_algorithm_simps .
  next
    assume k: "k = ''priority-np''"
    from priority_nonpreemptive_ok [OF assms(1)] show ?thesis
      unfolding k select_algorithm_simps .
  qed
qed

lemma schedule_served: "schedule procs g \<Longrightarrow> served procs g"
  by (simp add: schedule_def)

lemma select_served:
  assumes "well_formed procs" "k \<in> set policy_keys" "k = ''rr'' \<longrightarrow> 0 < quantum"
  shows "\<exists>g. select_algorithm k quantum procs = Some (Inr g) \<and> served procs g"
proof -
  from assms(2) have "k = ''fcfs'' \<or> k = ''sjf-np'' \<or> k = ''sjf-p'' \<or> k = ''rr'' \<or>
      k = ''priority-np'' \<or> k = ''priority-p''"
    by (simp add: policy_keys_def)
  then show ?thesis
  proof (elim disjE)
    assume k: "k = ''fcfs''"
    from schedule_served [OF fcfs_ok [OF assms(1)]] show ?thesis
      unfolding k select_algorithm_simps by simp
  next
    assume k: "k = ''sjf-np''"
    from sjf_nonpreemptive_ok [OF assms(1)] schedule_served show ?thesis
      unfolding k select_algorithm_simps by blast
  next
    assume k: "k = ''sjf-p''"
    from sjf_preemptive_ok [OF assms(1)] show ?thesis unfolding k select_algorithm_simps .
  next
    assume k: "k = ''rr''"
    with assms(3) have "0 < quantum" by simp
    from round_robin_ok [OF assms(1) this] schedule_served show ?thesis
      unfolding k select_algorithm_simps by blast
  next
    assume k: "k = ''priority-np''"
    from priority_nonpreemptive_ok [OF assms(1)] schedule_served show ?thesis
      unfolding k select_algorithm_simps by blast
  next
    assume k: "k = ''priority-p''"
    from priority_preemptive_ok [OF assms(1)] show ?thesis unfolding k select_algorithm_simps .
  qed
qed

section \<open>The division of two integers is the correctly rounded quotient\<close>

lemma bit_length_bounds: "0 < n \<Longrightarrow> 2 ^ (bit_length n - 1) \<le> n \<and> n < 2 ^ bit_length n"
proof (induction n rule: bit_length.induct)
  case (1 n)
  show ?case
  proof (cases "n div 2 = 0")
    case True
    with 1(2) have "n = 1" by (simp add: div_eq_0_iff) 
    then show ?thesis by (simp add: bit_length.simps [of "Suc 0"] bit_length.simps [of 0])
  next
    case False
    with 1 have ih: "2 ^ (bit_length (n div 2) - 1) \<le> n div 2" "n div 2 < 2 ^ bit_length (n div 2)"
      by simp_all
    from False have pos: "0 < bit_length (n div 2)" by (simp add: bit_length.simps [of "n div 2"])
    have bl: "bit_length n = Suc (bit_length (n div 2))" using 1(2) by (simp add: bit_length.simps [of n])
    from pos obtain k where k: "bit_length (n div 2) = Suc k" by (cases "bit_length (n div 2)") auto
    from ih(1) have "2 * 2 ^ k \<le> 2 * (n div 2)" by (simp add: k)
    also have "\<dots> \<le> n" by simp
    finally have a: "2 ^ (bit_length n - 1) \<le> n" by (simp add: bl k)
    from ih(2) have "n div 2 + 1 \<le> 2 ^ bit_length (n div 2)" by simp
    then have "2 * (n div 2) + 2 \<le> 2 * 2 ^ bit_length (n div 2)" by simp
    moreover have "n \<le> 2 * (n div 2) + 1" by presburger
    ultimately have "n < 2 ^ bit_length n" by (simp add: bl)
    with a show ?thesis by simp
  qed
qed

lemma pow2_pos [simp]: "0 < pow2 e"
  by (simp add: pow2_def)

lemma pow2_add: "pow2 (a + b) = pow2 a * pow2 b"
proof -
  have "pow2 e = 2 powi e" for e
    by (simp add: pow2_def power_int_def field_simps)
  then show ?thesis by (simp add: power_int_add)
qed

lemma pow2_nat: "pow2 (int n) = 2 ^ n"
  by (simp add: pow2_def)

lemma pow2_neg: "pow2 (- e) = 1 / pow2 e"
  using pow2_add [of e "- e"] by (simp add: pow2_def field_simps)

lemma pow2_mono: "a \<le> b \<Longrightarrow> pow2 a \<le> pow2 b"
proof -
  assume "a \<le> b"
  then obtain k where b: "b = a + int k" by (metis nonneg_int_cases diff_ge_0_iff_ge add_diff_cancel_left' add.commute diff_add_cancel)
  have "1 \<le> (2::rat) ^ k" by simp
  then have "pow2 a * 1 \<le> pow2 a * 2 ^ k" by (intro mult_left_mono) (simp_all add: less_imp_le)
  then show ?thesis by (simp add: b pow2_add pow2_nat)
qed

lemma binade_bounds:
  assumes "0 < q"
  shows "pow2 (binade q) \<le> q" and "q < pow2 (binade q + 1)"
proof -
  define F where "F = nat \<lfloor>q\<rfloor>"
  define N where "N = nat (\<lceil>1 / q\<rceil> - 1)"
  have big: "0 < F \<and> (of_nat F :: rat) \<le> q \<and> q < of_nat F + 1" if "1 \<le> q"
  proof -
    define c where "c = \<lfloor>q\<rfloor>"
    from that have c1: "1 \<le> c" unfolding c_def by simp
    have F: "F = nat c" by (simp add: F_def c_def)
    from c1 have "0 < F" by (simp add: F)
    moreover from c1 have "(of_nat F :: rat) = of_int c" unfolding F by (intro of_nat_nat) simp
    moreover have "of_int c \<le> q" "q < of_int c + 1" unfolding c_def by linarith+
    ultimately show ?thesis by simp
  qed
  have small: "0 < N \<and> (of_nat N :: rat) < 1 / q \<and> 1 / q \<le> of_nat N + 1" if "\<not> 1 \<le> q"
  proof -
    define c where "c = \<lceil>1 / q\<rceil>"
    from that assms have "1 < 1 / q" by (simp add: field_simps)
    then have c2: "2 \<le> c" unfolding c_def by (simp add: le_ceiling_iff)
    have N: "N = nat (c - 1)" by (simp add: N_def c_def)
    from c2 have "0 < N" by (simp add: N)
    moreover from c2 have "(of_nat N :: rat) = of_int (c - 1)" unfolding N by (intro of_nat_nat) simp
    moreover have "of_int c - 1 < 1 / q" "1 / q \<le> of_int c" unfolding c_def by linarith+
    ultimately show ?thesis by simp
  qed
  have bl: "0 < bit_length n \<and> (2::rat) ^ (bit_length n - 1) \<le> of_nat n \<and>
      (of_nat n :: rat) + 1 \<le> 2 ^ bit_length n" if "0 < n" for n
  proof -
    from bit_length_bounds [OF that] have a: "2 ^ (bit_length n - 1) \<le> n" "n + 1 \<le> 2 ^ bit_length n"
      by simp_all
    from a(1) have "(of_nat (2 ^ (bit_length n - 1)) :: rat) \<le> of_nat n" by (simp only: of_nat_le_iff)
    moreover from a(2) have "(of_nat (n + 1) :: rat) \<le> of_nat (2 ^ bit_length n)"
      by (simp only: of_nat_le_iff)
    moreover from that a(2) have "0 < bit_length n" by (cases "bit_length n") auto
    ultimately show ?thesis by simp
  qed
  have e1: "binade q = int (bit_length F - 1)" if "1 \<le> q"
    using that bl [of F] big by (simp add: binade_def F_def)
  have e2: "binade q = - int (bit_length N)" if "\<not> 1 \<le> q"
    using that by (simp add: binade_def N_def)
  show "pow2 (binade q) \<le> q"
  proof (cases "1 \<le> q")
    case True
    from bl [of F] big [OF True] have "(2::rat) ^ (bit_length F - 1) \<le> q" by linarith
    then show ?thesis by (simp only: e1 [OF True] pow2_nat)
  next
    case False
    from bl [of N] small [OF False] have "1 / q \<le> 2 ^ bit_length N" by linarith
    with assms have "1 / 2 ^ bit_length N \<le> q" by (simp add: field_simps)
    then show ?thesis by (simp only: e2 [OF False] pow2_neg pow2_nat)
  qed
  show "q < pow2 (binade q + 1)"
  proof (cases "1 \<le> q")
    case True
    from bl [of F] big [OF True] have "q < 2 ^ bit_length F" "0 < bit_length F" by linarith+
    moreover from this(2) have "int (bit_length F - 1) + 1 = int (bit_length F)" by simp
    ultimately show ?thesis by (simp only: e1 [OF True] pow2_nat)
  next
    case False
    from bl [of N] small [OF False] have "(2::rat) ^ (bit_length N - 1) < 1 / q" "0 < bit_length N"
      by linarith+
    with assms have "q < 1 / 2 ^ (bit_length N - 1)" by (simp add: field_simps)
    moreover from \<open>0 < bit_length N\<close> have "- int (bit_length N) + 1 = - int (bit_length N - 1)" by simp
    ultimately show ?thesis by (simp only: e2 [OF False] pow2_neg pow2_nat)
  qed
qed


lemma pow2_less: "a < b \<Longrightarrow> pow2 a < pow2 b"
proof -
  assume "a < b"
  then have "a + 1 \<le> b" by simp
  have "pow2 1 = 2" by (simp add: pow2_def)
  with pow2_mono [OF \<open>a + 1 \<le> b\<close>] have "pow2 a * 2 \<le> pow2 b" by (simp add: pow2_add)
  moreover have "pow2 a < pow2 a * 2" using pow2_pos [of a] by simp
  ultimately show ?thesis by linarith
qed

lemma pow2_le_iff: "pow2 a \<le> pow2 b \<longleftrightarrow> a \<le> b"
  using pow2_mono [of a b] pow2_less [of b a] by (cases "a \<le> b") auto

lemma pow2_less_iff: "pow2 a < pow2 b \<longleftrightarrow> a < b"
  using pow2_mono [of b a] pow2_less [of a b] by (cases "a < b") auto

lemma round_half_even_cases:
  "round_half_even x = \<lfloor>x\<rfloor> \<and> x - of_int \<lfloor>x\<rfloor> \<le> 1 / 2 \<or>
   round_half_even x = \<lfloor>x\<rfloor> + 1 \<and> 1 / 2 \<le> x - of_int \<lfloor>x\<rfloor>"
  by (auto simp: round_half_even_def Let_def)

lemma round_half_even_error: "\<bar>of_int (round_half_even x) - x\<bar> \<le> 1 / 2"
proof -
  have "of_int \<lfloor>x\<rfloor> \<le> x" "x < of_int \<lfloor>x\<rfloor> + 1" by linarith+
  with round_half_even_cases [of x] show ?thesis by auto
qed

lemma round_half_even_le: "x \<le> of_int n \<Longrightarrow> round_half_even x \<le> n"
proof -
  assume a: "x \<le> of_int n"
  then have f: "\<lfloor>x\<rfloor> \<le> n" by (simp add: floor_le_iff) 
  show ?thesis
  proof (cases "\<lfloor>x\<rfloor> = n")
    case True
    with a have "x - of_int \<lfloor>x\<rfloor> \<le> 0" by simp
    with round_half_even_cases [of x] True show ?thesis by auto
  next
    case False
    with f have "\<lfloor>x\<rfloor> + 1 \<le> n" by simp
    with round_half_even_cases [of x] show ?thesis by auto
  qed
qed

lemma round_half_even_ge: "of_int n \<le> x \<Longrightarrow> n \<le> round_half_even x"
proof -
  assume "of_int n \<le> x"
  then have "n \<le> \<lfloor>x\<rfloor>" by (simp add: le_floor_iff)
  with round_half_even_cases [of x] show ?thesis by auto
qed

lemma round_half_even_below: "x < of_int n + 1 / 2 \<Longrightarrow> round_half_even x \<le> n"
proof -
  assume a: "x < of_int n + 1 / 2"
  then have "x < of_int (n + 1)" by simp
  then have "\<lfloor>x\<rfloor> < n + 1" by (simp only: floor_less_iff)
  then have f: "\<lfloor>x\<rfloor> \<le> n" by simp
  show ?thesis
  proof (cases "\<lfloor>x\<rfloor> = n")
    case True
    with a have "x - of_int \<lfloor>x\<rfloor> < 1 / 2" by simp
    with round_half_even_cases [of x] True show ?thesis by auto
  next
    case False
    with f have "\<lfloor>x\<rfloor> + 1 \<le> n" by simp
    with round_half_even_cases [of x] show ?thesis by auto
  qed
qed

lemma round_half_even_odd: "of_int n + 1 / 2 \<le> x \<Longrightarrow> odd n \<Longrightarrow> n + 1 \<le> round_half_even x"
proof -
  assume a: "of_int n + 1 / 2 \<le> x" and o: "odd n"
  then have "of_int n \<le> x" by simp
  then have f: "n \<le> \<lfloor>x\<rfloor>" by (simp add: le_floor_iff)
  show ?thesis
  proof (cases "\<lfloor>x\<rfloor> = n")
    case True
    with a have r: "1 / 2 \<le> x - of_int \<lfloor>x\<rfloor>" by simp
    with True o show ?thesis by (auto simp: round_half_even_def Let_def)
  next
    case False
    with f have "n + 1 \<le> \<lfloor>x\<rfloor>" by simp
    with round_half_even_cases [of x] show ?thesis by auto
  qed
qed


lemma double_ulp_pos [simp]: "0 < double_ulp q" "0 \<le> double_ulp q" "double_ulp q \<noteq> 0"
proof -
  show "0 < double_ulp q" by (simp add: double_ulp_def)
  then show "0 \<le> double_ulp q" "double_ulp q \<noteq> 0" by simp_all
qed

lemma pow2_numeral: "pow2 (numeral k) = 2 ^ numeral k"
  by (simp add: pow2_def)

lemma pow2_split: "pow2 (e + 1) = double_ulp q * 2 ^ 53" if "e = double_exponent q"
proof -
  have "pow2 (e + 1) = pow2 ((e - 52) + 53)" by (rule arg_cong [where f = pow2]) simp
  also have "\<dots> = pow2 (e - 52) * pow2 53" by (rule pow2_add)
  finally show ?thesis by (simp add: that double_ulp_def pow2_numeral)
qed

lemma pow2_split': "pow2 e = double_ulp q * 2 ^ 52" if "e = double_exponent q"
proof -
  have "pow2 e = pow2 ((e - 52) + 52)" by (rule arg_cong [where f = pow2]) simp
  also have "\<dots> = pow2 (e - 52) * pow2 52" by (rule pow2_add)
  finally show ?thesis by (simp add: that double_ulp_def pow2_numeral)
qed

lemma scaled_less_2p53:
  assumes "q \<noteq> 0"
  shows "\<bar>q\<bar> / double_ulp q < 2 ^ 53"
proof -
  from assms have pos: "0 < \<bar>q\<bar>" by simp
  have "binade \<bar>q\<bar> + 1 \<le> double_exponent q + 1" by (simp add: double_exponent_def)
  from binade_bounds(2) [OF pos] pow2_mono [OF this]
  have "\<bar>q\<bar> < pow2 (double_exponent q + 1)" by linarith
  then have "\<bar>q\<bar> < double_ulp q * 2 ^ 53" by (simp only: pow2_split [OF refl])
  then show ?thesis by (simp add: field_simps)
qed

lemma mantissa_bounds:
  assumes "q \<noteq> 0"
  shows "0 \<le> double_mantissa q" and "double_mantissa q \<le> 2 ^ 53"
proof -
  have "of_int 0 \<le> \<bar>q\<bar> / double_ulp q" by simp
  then show "0 \<le> double_mantissa q" unfolding double_mantissa_def by (rule round_half_even_ge)
  from scaled_less_2p53 [OF assms] have "\<bar>q\<bar> / double_ulp q \<le> of_int (2 ^ 53)" by simp
  then show "double_mantissa q \<le> 2 ^ 53" unfolding double_mantissa_def by (rule round_half_even_le)
qed

lemma mantissa_normal:
  assumes "q \<noteq> 0" "- 1022 \<le> binade \<bar>q\<bar>"
  shows "2 ^ 52 \<le> double_mantissa q"
proof -
  from assms(1) have pos: "0 < \<bar>q\<bar>" by simp
  from assms(2) have e: "binade \<bar>q\<bar> = double_exponent q" by (simp add: double_exponent_def)
  from binade_bounds(1) [OF pos] have "double_ulp q * 2 ^ 52 \<le> \<bar>q\<bar>"
    by (simp only: pow2_split' [OF e])
  then have "of_int (2 ^ 52) \<le> \<bar>q\<bar> / double_ulp q" by (simp add: field_simps)
  then show ?thesis unfolding double_mantissa_def by (rule round_half_even_ge)
qed

lemma rounding_error:
  "\<bar>of_int (double_mantissa q) * double_ulp q - \<bar>q\<bar>\<bar> \<le> double_ulp q / 2"
proof -
  let ?u = "double_ulp q"
  have "of_int (double_mantissa q) * ?u - \<bar>q\<bar> = (of_int (double_mantissa q) - \<bar>q\<bar> / ?u) * ?u"
    by (simp add: field_simps)
  then have "\<bar>of_int (double_mantissa q) * ?u - \<bar>q\<bar>\<bar> =
      \<bar>of_int (double_mantissa q) - \<bar>q\<bar> / ?u\<bar> * ?u"
    by (simp add: abs_mult)
  also have "\<dots> \<le> 1 / 2 * ?u"
    unfolding double_mantissa_def
    by (intro mult_right_mono round_half_even_error) (simp add: less_imp_le)
  finally show ?thesis by simp
qed

lemma half_ulp_bound:
  assumes "q \<noteq> 0"
  shows "double_ulp q / 2 \<le> max (\<bar>q\<bar> / 2 ^ 53) (pow2 (- 1075))"
proof (cases "- 1022 \<le> binade \<bar>q\<bar>")
  case True
  from assms have pos: "0 < \<bar>q\<bar>" by simp
  from True have e: "binade \<bar>q\<bar> = double_exponent q" by (simp add: double_exponent_def)
  from binade_bounds(1) [OF pos] have "double_ulp q * 2 ^ 52 \<le> \<bar>q\<bar>"
    by (simp only: pow2_split' [OF e])
  then have "double_ulp q / 2 \<le> \<bar>q\<bar> / 2 ^ 53" by (simp add: field_simps)
  then show ?thesis by simp
next
  case False
  then have "double_exponent q = - 1022" by (simp add: double_exponent_def)
  then have "double_ulp q = pow2 (- 1075 + 1)" by (simp add: double_ulp_def)
  also have "\<dots> = pow2 (- 1075) * pow2 1" by (rule pow2_add)
  also have "pow2 1 = 2" by (simp add: pow2_def)
  finally have "double_ulp q / 2 = pow2 (- 1075)" by simp
  then show ?thesis by simp
qed


lemma overflow_code_iff:
  assumes "q \<noteq> 0"
  shows "pow2 1024 \<le> of_int (double_mantissa q) * double_ulp q \<longleftrightarrow>
     1024 \<le> double_exponent q \<or> double_exponent q = 1023 \<and> double_mantissa q = 2 ^ 53"
proof -
  let ?e = "double_exponent q" and ?u = "double_ulp q" and ?m = "double_mantissa q"
  have top: "of_int ?m * ?u \<le> pow2 (?e + 1)"
  proof -
    from mantissa_bounds(2) [OF assms] have "(of_int ?m :: rat) \<le> of_int (2 ^ 53)"
      by (simp only: of_int_le_iff)
    then have "of_int ?m * ?u \<le> of_int (2 ^ 53) * ?u" by (intro mult_right_mono) simp_all
    then show ?thesis by (simp add: pow2_split [OF refl, of q] mult.commute)
  qed
  show ?thesis
  proof
    assume v: "pow2 1024 \<le> of_int ?m * ?u"
    show "1024 \<le> ?e \<or> ?e = 1023 \<and> ?m = 2 ^ 53"
    proof (cases "1024 \<le> ?e")
      case True
      then show ?thesis by simp
    next
      case False
      from v top have "pow2 1024 \<le> pow2 (?e + 1)" by linarith
      then have "1024 \<le> ?e + 1" by (simp only: pow2_le_iff)
      with False have e: "?e = 1023" by simp
      have "pow2 1024 = pow2 (?e + 1)" by (simp add: e)
      also have "\<dots> = ?u * 2 ^ 53" by (rule pow2_split [OF refl])
      finally have "?u * 2 ^ 53 \<le> of_int ?m * ?u" using v by simp
      then have "(of_int (2 ^ 53) :: rat) \<le> of_int ?m" by (simp add: mult.commute)
      then have "2 ^ 53 \<le> ?m" by (simp only: of_int_le_iff)
      with mantissa_bounds(2) [OF assms] e show ?thesis by simp
    qed
  next
    assume "1024 \<le> ?e \<or> ?e = 1023 \<and> ?m = 2 ^ 53"
    then show "pow2 1024 \<le> of_int ?m * ?u"
    proof
      assume big: "1024 \<le> ?e"
      then have "- 1022 \<le> binade \<bar>q\<bar>" by (simp add: double_exponent_def max_def split: if_splits)
      from mantissa_normal [OF assms this] have "(of_int (2 ^ 52) :: rat) \<le> of_int ?m"
        by (simp only: of_int_le_iff)
      then have "of_int (2 ^ 52) * ?u \<le> of_int ?m * ?u" by (intro mult_right_mono) simp_all
      then have "pow2 ?e \<le> of_int ?m * ?u" by (simp add: pow2_split' [OF refl, of q] mult.commute)
      with pow2_mono [OF big] show ?thesis by linarith
    next
      assume a: "?e = 1023 \<and> ?m = 2 ^ 53"
      then have "pow2 1024 = pow2 (?e + 1)" by simp
      also have "\<dots> = ?u * 2 ^ 53" by (rule pow2_split [OF refl])
      finally show ?thesis using a by (simp add: mult.commute)
    qed
  qed
qed

lemma double_limit_bounds: "pow2 1023 \<le> double_limit" "double_limit < pow2 1024" "0 < double_limit"
proof -
  have a: "pow2 1024 = pow2 1023 * 2"
    using pow2_add [of 1023 1] by (simp add: pow2_def [of 1])
  have b: "pow2 970 \<le> pow2 1023" by (simp add: pow2_le_iff)
  from a b show "pow2 1023 \<le> double_limit" by (simp add: double_limit_def)
  show "double_limit < pow2 1024" by (simp add: double_limit_def)
  from \<open>pow2 1023 \<le> double_limit\<close> pow2_pos [of 1023] show "0 < double_limit" by linarith
qed

lemma double_limit_scaled: "double_limit = pow2 971 * (2 ^ 53 - 1 / 2)"
proof -
  have a: "pow2 1024 = pow2 971 * 2 ^ 53"
    using pow2_add [of 971 53] by (simp add: pow2_numeral)
  have b: "pow2 971 = pow2 970 * 2"
    using pow2_add [of 970 1] by (simp add: pow2_def [of 1])
  show ?thesis unfolding double_limit_def a by (simp add: b algebra_simps)
qed

lemma overflow_iff:
  assumes "q \<noteq> 0"
  shows "pow2 1024 \<le> of_int (double_mantissa q) * double_ulp q \<longleftrightarrow> double_limit \<le> \<bar>q\<bar>"
proof -
  let ?e = "double_exponent q" and ?u = "double_ulp q" and ?m = "double_mantissa q"
  from assms have pos: "0 < \<bar>q\<bar>" by simp
  note bb = binade_bounds [OF pos]
  have u: "?u = pow2 971" if "?e = 1023" by (simp add: double_ulp_def that)
  have "(1024 \<le> ?e \<or> ?e = 1023 \<and> ?m = 2 ^ 53) \<longleftrightarrow> double_limit \<le> \<bar>q\<bar>"
  proof
    assume lim: "double_limit \<le> \<bar>q\<bar>"
    with double_limit_bounds(1) bb(2) have "pow2 1023 < pow2 (binade \<bar>q\<bar> + 1)" by linarith
    then have "1023 < binade \<bar>q\<bar> + 1" by (simp only: pow2_less_iff)
    then have b: "1023 \<le> binade \<bar>q\<bar>" by simp
    then have e: "?e = binade \<bar>q\<bar>" by (simp add: double_exponent_def)
    show "1024 \<le> ?e \<or> ?e = 1023 \<and> ?m = 2 ^ 53"
    proof (cases "1024 \<le> ?e")
      case True
      then show ?thesis by simp
    next
      case False
      with b e have e1: "?e = 1023" by simp
      from lim have "pow2 971 * (2 ^ 53 - 1 / 2) \<le> \<bar>q\<bar>" by (simp only: double_limit_scaled)
      then have "of_int (2 ^ 53 - 1) + 1 / 2 \<le> \<bar>q\<bar> / ?u"
        using pow2_pos [of 971] by (simp add: u [OF e1] field_simps)
      moreover have "odd (2 ^ 53 - 1 :: int)" by simp
      ultimately have "(2 ^ 53 - 1) + 1 \<le> ?m" unfolding double_mantissa_def
        by (rule round_half_even_odd)
      with mantissa_bounds(2) [OF assms] e1 show ?thesis by simp
    qed
  next
    assume c: "1024 \<le> ?e \<or> ?e = 1023 \<and> ?m = 2 ^ 53"
    show "double_limit \<le> \<bar>q\<bar>"
    proof (rule ccontr)
      assume "\<not> double_limit \<le> \<bar>q\<bar>"
      then have less: "\<bar>q\<bar> < double_limit" by simp
      with double_limit_bounds(2) bb(1) have "pow2 (binade \<bar>q\<bar>) < pow2 1024" by linarith
      then have b: "binade \<bar>q\<bar> < 1024" by (simp only: pow2_less_iff)
      then have "\<not> 1024 \<le> ?e" by (simp add: double_exponent_def)
      with c have e1: "?e = 1023" and m: "?m = 2 ^ 53" by simp_all
      from less have "\<bar>q\<bar> < pow2 971 * (2 ^ 53 - 1 / 2)" by (simp only: double_limit_scaled)
      then have "\<bar>q\<bar> / ?u < of_int (2 ^ 53 - 1) + 1 / 2"
        using pow2_pos [of 971] by (simp add: u [OF e1] field_simps)
      then have "?m \<le> 2 ^ 53 - 1" unfolding double_mantissa_def by (rule round_half_even_below)
      with m show False by simp
    qed
  qed
  with overflow_code_iff [OF assms] show ?thesis by simp
qed

lemma round_to_double_code:
  "round_to_double q =
     (if q = 0 then Inr (Double 0)
      else let e = double_exponent q; m = double_mantissa q; v = of_int m * double_ulp q
           in if 1024 \<le> e \<or> e = 1023 \<and> m = 2 ^ 53 then Inl OverflowError
              else if v = 0 then Inr (if q < 0 then NegZero else Double 0)
              else Inr (Double (if q < 0 then - v else v)))"
proof (cases "q = 0")
  case True
  then show ?thesis by (simp add: round_to_double_def)
next
  case False
  from overflow_code_iff [OF False] show ?thesis
    by (simp only: round_to_double_def Let_def)
qed

lemma round_to_double_overflow: "round_to_double q = Inl OverflowError \<longleftrightarrow> double_limit \<le> \<bar>q\<bar>"
proof (cases "q = 0")
  case True
  with double_limit_bounds(3) show ?thesis by (simp add: round_to_double_def)
next
  case False
  from overflow_iff [OF False] False show ?thesis
    by (simp add: round_to_double_def Let_def)
qed

lemma round_to_double_value:
  assumes "\<bar>q\<bar> < double_limit"
  shows "\<exists>x. round_to_double q = Inr x \<and>
           \<bar>float_value x - q\<bar> \<le> max (\<bar>q\<bar> / 2 ^ 53) (pow2 (- 1075))"
proof (cases "q = 0")
  case True
  then show ?thesis by (simp add: round_to_double_def less_imp_le)
next
  case False
  let ?v = "of_int (double_mantissa q) * double_ulp q"
  from assms overflow_iff [OF False] have no: "\<not> pow2 1024 \<le> ?v" by simp
  from rounding_error [of q] half_ulp_bound [OF False]
  have err: "\<bar>?v - \<bar>q\<bar>\<bar> \<le> max (\<bar>q\<bar> / 2 ^ 53) (pow2 (- 1075))" by linarith
  show ?thesis
  proof (cases "q < 0")
    case True
    then have "\<bar>- ?v - q\<bar> = \<bar>?v - \<bar>q\<bar>\<bar>" by simp
    with err have e: "\<bar>- ?v - q\<bar> \<le> max (\<bar>q\<bar> / 2 ^ 53) (pow2 (- 1075))" by simp
    show ?thesis
    proof (cases "?v = 0")
      case v0: True
      with e have "\<bar>float_value NegZero - q\<bar> \<le> max (\<bar>q\<bar> / 2 ^ 53) (pow2 (- 1075))" by simp
      moreover have "round_to_double q = Inr NegZero"
        using False no v0 True by (simp add: round_to_double_def Let_def)
      ultimately show ?thesis by blast
    next
      case v1: False
      have "round_to_double q = Inr (Double (- ?v))"
        using False no v1 True by (simp add: round_to_double_def Let_def)
      with e show ?thesis by simp
    qed
  next
    case pos: False
    then have "\<bar>?v - q\<bar> = \<bar>?v - \<bar>q\<bar>\<bar>" by simp
    with err have e: "\<bar>?v - q\<bar> \<le> max (\<bar>q\<bar> / 2 ^ 53) (pow2 (- 1075))" by simp
    show ?thesis
    proof (cases "?v = 0")
      case v0: True
      have "round_to_double q = Inr (Double 0)"
        using False no v0 pos by (simp add: round_to_double_def Let_def)
      with e v0 show ?thesis by simp
    next
      case v1: False
      have "round_to_double q = Inr (Double ?v)"
        using False no v1 pos by (simp add: round_to_double_def Let_def)
      with e show ?thesis by simp
    qed
  qed
qed

declare round_to_double_code [code]

lemma int_true_divide_pos:
  "0 < b \<Longrightarrow> int_true_divide a b = round_to_double (of_int a / of_int b)"
  by (simp add: int_true_divide_def round_to_double_def)

section \<open>The metrics\<close>

lemma find_append:
  "find Q (xs @ ys) = (case find Q xs of None \<Rightarrow> find Q ys | Some x \<Rightarrow> Some x)"
  by (induction xs) simp_all

lemma first_start_simps [simp]:
  "first_start k [] = None"
  "first_start k ((a, s, e) # g) = (if a = k \<and> k \<noteq> ''idle'' then Some s else first_start k g)"
  by (simp_all add: first_start_def actor_def start_of_def)

lemma last_end_simps [simp]:
  "last_end k [] = None"
  "last_end k ((a, s, e) # g) =
     (case last_end k g of Some e' \<Rightarrow> Some e'
      | None \<Rightarrow> if a = k \<and> k \<noteq> ''idle'' then Some e else None)"
  by (simp_all add: last_end_def actor_def end_of_def find_append split: option.splits)

lemma first_start_None: "first_start k g = None \<longleftrightarrow> (\<forall>(a, s, e)\<in>set g. a = k \<longrightarrow> k = ''idle'')"
  by (induction g) (auto split: if_splits)

lemma last_end_None: "last_end k g = None \<longleftrightarrow> (\<forall>(a, s, e)\<in>set g. a = k \<longrightarrow> k = ''idle'')"
  by (induction g) (auto split: option.splits if_splits)

lemma scan_gantt_result:
  assumes "\<forall>(a, s, e)\<in>set g. a \<noteq> ''idle'' \<longrightarrow> starts a \<noteq> None"
  shows "scan_gantt g starts completions =
     Inr (\<lambda>k. case starts k of Some None \<Rightarrow> Some (first_start k g) | x \<Rightarrow> x,
          \<lambda>k. case last_end k g of None \<Rightarrow> completions k | Some e \<Rightarrow> Some (Some e))"
  using assms
proof (induction g arbitrary: starts completions)
  case Nil
  show ?case by (auto split: option.splits intro!: ext)
next
  case (Cons iv g)
  obtain a s e where iv: "iv = (a, s, e)" by (cases iv) auto
  show ?case
  proof (cases "a = ''idle''")
    case True
    from Cons.prems have "\<forall>(a, s, e)\<in>set g. a \<noteq> ''idle'' \<longrightarrow> starts a \<noteq> None" by auto
    from Cons.IH [OF this, of completions] True show ?thesis
      unfolding iv by (auto split: option.splits intro!: ext)
  next
    case False
    with Cons.prems obtain v where v: "starts a = Some v" by (auto simp: iv)
    define st1 where "st1 = (if v = None then starts(a \<mapsto> Some s) else starts)"
    define co1 where "co1 = completions(a \<mapsto> Some e)"
    have step: "scan_gantt (iv # g) starts completions = scan_gantt g st1 co1"
      using False v by (simp add: iv st1_def co1_def)
    from Cons.prems have "\<forall>(a, s, e)\<in>set g. a \<noteq> ''idle'' \<longrightarrow> st1 a \<noteq> None"
      by (auto simp: st1_def)
    from Cons.IH [OF this, of co1]
    have "scan_gantt g st1 co1 =
      Inr (\<lambda>k. case st1 k of Some None \<Rightarrow> Some (first_start k g) | x \<Rightarrow> x,
          \<lambda>k. case last_end k g of None \<Rightarrow> co1 k | Some e \<Rightarrow> Some (Some e))" .
    moreover have "(\<lambda>k. case st1 k of Some None \<Rightarrow> Some (first_start k g) | x \<Rightarrow> x) =
       (\<lambda>k. case starts k of Some None \<Rightarrow> Some (first_start k (iv # g)) | x \<Rightarrow> x)"
      using False v by (auto simp: iv st1_def split: option.splits intro!: ext)
    moreover have "(\<lambda>k. case last_end k g of None \<Rightarrow> co1 k | Some e \<Rightarrow> Some (Some e)) =
       (\<lambda>k. case last_end k (iv # g) of None \<Rightarrow> completions k | Some e \<Rightarrow> Some (Some e))"
      using False by (auto simp: iv co1_def split: option.splits intro!: ext)
    ultimately show ?thesis unfolding step by simp
  qed
qed

lemma update_subset: "set (AList.update k v al) \<subseteq> insert (k, v) (set al)"
  by (induct al) auto

lemma build_info_acc:
  fixes f :: "(string \<times> info) list \<Rightarrow> desc \<Rightarrow> (string \<times> info) list"
  defines "f \<equiv> \<lambda>d p. AList.update (d_pid p)
              \<lparr>i_arrival = d_arrival p, i_burst = d_burst p, i_priority = d_priority p\<rparr> d"
  shows "fst ` set (foldl f acc ds) = fst ` set acc \<union> d_pid ` set ds"
    and "distinct (map fst acc) \<Longrightarrow> distinct (map fst (foldl f acc ds))"
    and "(k, i) \<in> set (foldl f acc ds) \<Longrightarrow> (k, i) \<in> set acc \<or>
           (\<exists>x\<in>set ds. d_pid x = k \<and>
              i = \<lparr>i_arrival = d_arrival x, i_burst = d_burst x, i_priority = d_priority x\<rparr>)"
proof -
  show "fst ` set (foldl f acc ds) = fst ` set acc \<union> d_pid ` set ds"
    by (induction ds arbitrary: acc) (auto simp: f_def dom_update)
  show "distinct (map fst acc) \<Longrightarrow> distinct (map fst (foldl f acc ds))"
    by (induction ds arbitrary: acc) (simp_all add: f_def distinct_update)
  show "(k, i) \<in> set (foldl f acc ds) \<Longrightarrow> (k, i) \<in> set acc \<or>
           (\<exists>x\<in>set ds. d_pid x = k \<and>
              i = \<lparr>i_arrival = d_arrival x, i_burst = d_burst x, i_priority = d_priority x\<rparr>)"
  proof (induction ds arbitrary: acc)
    case Nil
    then show ?case by simp
  next
    case (Cons d ds)
    from Cons.prems have "(k, i) \<in> set (foldl f (f acc d) ds)" by simp
    from Cons.IH [OF this] update_subset [of "d_pid d" _ acc] show ?case
      by (auto simp: f_def)
  qed
qed

lemma build_info_props:
  "fst ` set (build_info ds) = d_pid ` set ds"
  "distinct (map fst (build_info ds))"
  "(k, i) \<in> set (build_info ds) \<Longrightarrow>
     \<exists>x\<in>set ds. d_pid x = k \<and> i_arrival i = d_arrival x \<and> i_burst i = d_burst x \<and>
       i_priority i = d_priority x"
  using build_info_acc(1) [of "[]" ds] build_info_acc(2) [of "[]" ds]
    build_info_acc(3) [of k i "[]" ds]
  by (auto simp: build_info_def)

lemma build_info_snoc:
  "build_info (ds @ [d]) =
     AList.update (d_pid d)
       \<lparr>i_arrival = d_arrival d, i_burst = d_burst d, i_priority = d_priority d\<rparr> (build_info ds)"
  by (simp add: build_info_def)

lemma build_info_keys: "map fst (build_info ds) = first_occurrences (map d_pid ds)"
proof (induction ds rule: rev_induct)
  case Nil
  show ?case by (simp add: build_info_def first_occurrences_def)
next
  case (snoc d ds)
  then have "map fst (build_info ds) = rev (remdups (rev (map d_pid ds)))"
    by (simp add: first_occurrences_def)
  moreover from this have "set (map fst (build_info ds)) = d_pid ` set ds" by simp
  ultimately show ?case
    by (auto simp: build_info_snoc update_keys first_occurrences_def)
qed

lemma build_info_lookup:
  "map_of (build_info ds) k =
     (if k \<in> d_pid ` set ds
      then Some \<lparr>i_arrival = d_arrival (descriptor_for ds k), i_burst = d_burst (descriptor_for ds k),
                   i_priority = d_priority (descriptor_for ds k)\<rparr>
      else None)"
proof (induction ds rule: rev_induct)
  case Nil
  show ?case by (simp add: build_info_def)
next
  case (snoc d ds)
  show ?case
  proof (cases "d_pid d = k")
    case True
    then show ?thesis by (simp add: build_info_snoc update_conv' descriptor_for_def)
  next
    case False
    then have "descriptor_for (ds @ [d]) k = descriptor_for ds k" by (simp add: descriptor_for_def)
    with False snoc show ?thesis by (simp add: build_info_snoc update_conv')
  qed
qed

lemma build_info_last:
  assumes "(k, i) \<in> set (build_info ds)"
  shows "i_arrival i = d_arrival (descriptor_for ds k)" "i_burst i = d_burst (descriptor_for ds k)"
    "i_priority i = d_priority (descriptor_for ds k)"
proof -
  from map_of_is_SomeI [OF build_info_props(2) assms]
  have "map_of (build_info ds) k = Some i" .
  then have "i = \<lparr>i_arrival = d_arrival (descriptor_for ds k), i_burst = d_burst (descriptor_for ds k),
                   i_priority = d_priority (descriptor_for ds k)\<rparr>"
    by (simp add: build_info_lookup split: if_splits)
  then show "i_arrival i = d_arrival (descriptor_for ds k)" "i_burst i = d_burst (descriptor_for ds k)"
    "i_priority i = d_priority (descriptor_for ds k)" by simp_all
qed

lemma none_for_apply: "none_for d k = (if k \<in> fst ` set d then Some None else None)"
  by (induction d) (auto simp: none_for_def)

lemma make_rows_result:
  assumes "\<forall>(k, i)\<in>set d. starts k = Some (first_start k g) \<and> completions k = Some (last_end k g)"
  shows "\<exists>rows. make_rows starts completions d = Inr rows \<and> map r_pid rows = map fst d \<and>
           (\<forall>r\<in>set rows. row_matches g r \<and>
              (\<exists>i. (r_pid r, i) \<in> set d \<and> r_arrival r = i_arrival i \<and>
                   r_burst r = i_burst i \<and> r_priority r = i_priority i))"
  using assms
proof (induction d)
  case Nil
  then show ?case by simp
next
  case (Cons item d)
  obtain k i where item: "item = (k, i)" by (cases item) auto
  from Cons.prems have st: "starts k = Some (first_start k g)" "completions k = Some (last_end k g)"
    by (simp_all add: item)
  have both: "first_start k g = None \<longleftrightarrow> last_end k g = None"
    by (simp add: first_start_None last_end_None)
  have "\<exists>r. make_row starts completions item = Inr r \<and> r_pid r = k \<and> row_matches g r \<and>
    r_arrival r = i_arrival i \<and> r_burst r = i_burst i \<and> r_priority r = i_priority i"
  proof (cases "first_start k g")
    case None
    with both have "last_end k g = None" by simp
    with None st show ?thesis
      by (simp add: make_row_def item row_matches_def)
  next
    case (Some s)
    with both obtain e where "last_end k g = Some e" by auto
    with Some st show ?thesis
      by (simp add: make_row_def item row_matches_def Let_def)
  qed
  then obtain r where r: "make_row starts completions item = Inr r" "r_pid r = k" "row_matches g r"
    "r_arrival r = i_arrival i" "r_burst r = i_burst i" "r_priority r = i_priority i"
    by blast
  from Cons.prems have "\<forall>(k, i)\<in>set d. starts k = Some (first_start k g) \<and>
      completions k = Some (last_end k g)" by simp
  from Cons.IH [OF this] obtain rows where rows: "make_rows starts completions d = Inr rows"
    "map r_pid rows = map fst d"
    "\<forall>r\<in>set rows. row_matches g r \<and>
              (\<exists>i. (r_pid r, i) \<in> set d \<and> r_arrival r = i_arrival i \<and>
                   r_burst r = i_burst i \<and> r_priority r = i_priority i)"
    by blast
  have "make_rows starts completions (item # d) = Inr (r # rows)" using r(1) rows(1) by simp
  moreover have "map r_pid (r # rows) = map fst (item # d)" using r(2) rows(2) by (simp add: item)
  moreover have "\<forall>x\<in>set (r # rows). row_matches g x \<and>
              (\<exists>i. (r_pid x, i) \<in> set (item # d) \<and> r_arrival x = i_arrival i \<and>
                   r_burst x = i_burst i \<and> r_priority x = i_priority i)"
    using r rows(3) item by auto
  ultimately show ?case by blast
qed

lemma py_sum_Some: "\<forall>x\<in>set xs. x \<noteq> None \<Longrightarrow> py_sum xs = Inr (sum_list (map the xs))"
  by (induction xs rule: py_sum.induct) simp_all

lemma average_rounded:
  assumes "\<forall>r\<in>set rows. field r \<noteq> None"
  shows "average field rows = rounded_mean (map (the \<circ> field) rows)"
proof (cases "rows = []")
  case True
  then show ?thesis by (simp add: average_def rounded_mean_def mean_def)
next
  case False
  from assms have "\<forall>x\<in>set (map field rows). x \<noteq> None" by simp
  from py_sum_Some [OF this] have s: "py_sum (map field rows) = Inr (sum_list (map (the \<circ> field) rows))"
    by (simp add: comp_def)
  from False have "0 < int (length rows)" by simp
  from int_true_divide_pos [OF this] False s show ?thesis
    by (simp add: average_def rounded_mean_def mean_def)
qed

lemma completed_rows:
  assumes "row_matches g r" "r_TAT r \<noteq> None"
  shows "r_WT r \<noteq> None" "r_RT r \<noteq> None"
proof -
  from assms show "r_WT r \<noteq> None" by (auto simp: row_matches_def)
  from assms have "last_end (r_pid r) g \<noteq> None" by (auto simp: row_matches_def)
  then have "first_start (r_pid r) g \<noteq> None" by (simp add: first_start_None last_end_None)
  with assms(1) show "r_RT r \<noteq> None" by (auto simp: row_matches_def)
qed

lemma compute_metrics_result:
  assumes "\<forall>(a, s, e)\<in>set gantt. a \<noteq> ''idle'' \<longrightarrow> a \<in> d_pid ` set proc_desc"
  shows "\<exists>rows. compute_metrics_from_gantt proc_desc gantt = with_averages rows \<and>
     map r_pid rows = first_occurrences (map d_pid proc_desc) \<and>
     (\<forall>r\<in>set rows. row_matches gantt r \<and>
        r_arrival r = d_arrival (descriptor_for proc_desc (r_pid r)) \<and>
        r_burst r = d_burst (descriptor_for proc_desc (r_pid r)) \<and>
        r_priority r = d_priority (descriptor_for proc_desc (r_pid r)))"
proof -
  define d where "d = build_info proc_desc"
  have keys: "fst ` set d = d_pid ` set proc_desc" and dist: "distinct (map fst d)"
    unfolding d_def by (rule build_info_props)+
  define starts where "starts = (\<lambda>k. case none_for d k of
      Some None \<Rightarrow> Some (first_start k gantt) | x \<Rightarrow> x)"
  define completions where "completions = (\<lambda>k. case last_end k gantt of
      None \<Rightarrow> none_for d k | Some e \<Rightarrow> Some (Some e))"
  from assms keys have "\<forall>(a, s, e)\<in>set gantt. a \<noteq> ''idle'' \<longrightarrow> none_for d a \<noteq> None"
    by (auto simp: none_for_apply)
  from scan_gantt_result [OF this, of "none_for d"]
  have scan: "scan_gantt gantt (none_for d) (none_for d) = Inr (starts, completions)"
    by (simp add: starts_def completions_def)
  have "\<forall>(k, i)\<in>set d. starts k = Some (first_start k gantt) \<and>
      completions k = Some (last_end k gantt)"
  proof (intro ballI, clarify)
    fix k i assume "(k, i) \<in> set d"
    then have "k \<in> fst ` set d" by force
    then have "none_for d k = Some None" by (simp add: none_for_apply)
    then show "starts k = Some (first_start k gantt) \<and> completions k = Some (last_end k gantt)"
      by (simp add: starts_def completions_def split: option.splits)
  qed
  from make_rows_result [OF this] obtain rows where
    rows: "make_rows starts completions d = Inr rows" "map r_pid rows = map fst d"
    and each: "\<forall>r\<in>set rows. row_matches gantt r \<and>
              (\<exists>i. (r_pid r, i) \<in> set d \<and> r_arrival r = i_arrival i \<and>
                   r_burst r = i_burst i \<and> r_priority r = i_priority i)"
    by blast
  let ?completed = "filter (\<lambda>r. r_TAT r \<noteq> None) rows"
  have "\<forall>r\<in>set ?completed. r_TAT r \<noteq> None" by simp
  from average_rounded [OF this]
  have a1: "average r_TAT ?completed = rounded_mean (map (the \<circ> r_TAT) ?completed)" .
  have "\<forall>r\<in>set ?completed. r_WT r \<noteq> None" using each completed_rows(1) by auto
  from average_rounded [OF this]
  have a2: "average r_WT ?completed = rounded_mean (map (the \<circ> r_WT) ?completed)" .
  have "\<forall>r\<in>set ?completed. r_RT r \<noteq> None" using each completed_rows(2) by auto
  from average_rounded [OF this]
  have a3: "average r_RT ?completed = rounded_mean (map (the \<circ> r_RT) ?completed)" .
  have result: "compute_metrics_from_gantt proc_desc gantt = with_averages rows"
    unfolding compute_metrics_from_gantt_def with_averages_def completed_values_def
      d_def [symmetric] Let_def
    by (simp only: scan rows(1) a1 a2 a3 sum.case prod.case)
  have c2: "map r_pid rows = first_occurrences (map d_pid proc_desc)"
    unfolding rows(2) d_def by (rule build_info_keys)
  have c3: "\<forall>r\<in>set rows. row_matches gantt r \<and>
        r_arrival r = d_arrival (descriptor_for proc_desc (r_pid r)) \<and>
        r_burst r = d_burst (descriptor_for proc_desc (r_pid r)) \<and>
        r_priority r = d_priority (descriptor_for proc_desc (r_pid r))"
  proof
    fix r assume "r \<in> set rows"
    with each obtain i where m: "row_matches gantt r" and i: "(r_pid r, i) \<in> set d"
      "r_arrival r = i_arrival i" "r_burst r = i_burst i" "r_priority r = i_priority i"
      by blast
    from build_info_last [OF i(1) [unfolded d_def]] i(2-4) m
    show "row_matches gantt r \<and>
        r_arrival r = d_arrival (descriptor_for proc_desc (r_pid r)) \<and>
        r_burst r = d_burst (descriptor_for proc_desc (r_pid r)) \<and>
        r_priority r = d_priority (descriptor_for proc_desc (r_pid r))" by simp
  qed
  from result c2 c3 show ?thesis by blast
qed

lemma first_occurrences_props:
  "distinct (first_occurrences xs)" "set (first_occurrences xs) = set xs"
  by (simp_all add: first_occurrences_def)

lemma rounded_mean_cases:
  "too_large xs \<and> rounded_mean xs = Inl OverflowError \<or>
   \<not> too_large xs \<and> (\<exists>x. rounded_mean xs = Inr x \<and> close_to_mean x xs)"
proof (cases "mean xs")
  case None
  then show ?thesis by (simp add: too_large_def rounded_mean_def close_to_mean_def)
next
  case (Some q)
  show ?thesis
  proof (cases "double_limit \<le> \<bar>q\<bar>")
    case True
    then have "round_to_double q = Inl OverflowError" by (simp only: round_to_double_overflow)
    with True Some show ?thesis by (simp add: too_large_def rounded_mean_def)
  next
    case False
    then have "\<bar>q\<bar> < double_limit" by simp
    from round_to_double_value [OF this] obtain f where
      f: "round_to_double q = Inr f"
        "\<bar>float_value f - q\<bar> \<le> max (\<bar>q\<bar> / 2 ^ 53) (pow2 (- 1075))" by blast
    with False Some show ?thesis by (simp add: too_large_def rounded_mean_def close_to_mean_def)
  qed
qed

lemma with_averages_result:
  "(too_large (completed_values r_TAT rows) \<or> too_large (completed_values r_WT rows) \<or>
      too_large (completed_values r_RT rows)) \<and>
     with_averages rows = Inl OverflowError \<or>
   \<not> (too_large (completed_values r_TAT rows) \<or> too_large (completed_values r_WT rows) \<or>
      too_large (completed_values r_RT rows)) \<and>
     (\<exists>a. with_averages rows = Inr (rows, a) \<and>
        Inr (avg_tat a) = rounded_mean (completed_values r_TAT rows) \<and>
        Inr (avg_wt a) = rounded_mean (completed_values r_WT rows) \<and>
        Inr (avg_rt a) = rounded_mean (completed_values r_RT rows) \<and>
        close_to_mean (avg_tat a) (completed_values r_TAT rows) \<and>
        close_to_mean (avg_wt a) (completed_values r_WT rows) \<and>
        close_to_mean (avg_rt a) (completed_values r_RT rows))"
  using rounded_mean_cases [of "completed_values r_TAT rows"]
    rounded_mean_cases [of "completed_values r_WT rows"]
    rounded_mean_cases [of "completed_values r_RT rows"]
  by (elim disjE conjE exE) (simp_all add: with_averages_def)

section \<open>Empty input, and \<^verbatim>\<open>simulate\<close>\<close>

lemma gantt_end_last: "g \<noteq> [] \<Longrightarrow> gantt_end t g = end_of (last g)"
  by (induction t g rule: gantt_end.induct) (auto simp: end_of_def)

text \<open>A timeline that serves every process and never waits for nothing ends with an
  interval of a process, so it ends at the latest completion.\<close>

lemma sorted_le_last:
  assumes "sorted (map f xs)" "x \<in> set xs"
  shows "f x \<le> f (last xs)"
proof -
  from assms(2) have ne: "xs \<noteq> []" by auto
  then have xs: "xs = butlast xs @ [last xs]" by simp
  from assms(1) have "sorted (map f (butlast xs @ [last xs]))" by (simp only: xs [symmetric])
  then have "\<forall>y\<in>set (butlast xs). f y \<le> f (last xs)" by (simp add: sorted_append)
  moreover from assms(2) have "x \<in> set (butlast xs @ [last xs])" by (simp only: xs [symmetric])
  then have "x \<in> set (butlast xs) \<or> x = last xs" by auto
  ultimately show ?thesis by auto
qed

lemma served_last_actor:
  assumes "served P g" "g \<noteq> []"
  shows "actor (last g) \<in> pid ` set P"
proof (rule ccontr)
  assume n: "actor (last g) \<notin> pid ` set P"
  from assms(1) have c: "contiguous_from 0 g" and w: "gaps_wait P g"
    and v: "\<forall>p\<in>set P. \<exists>s e. (pid p, s, e) \<in> set g \<and> arrival p \<le> s"
    by (simp_all add: served_def)
  obtain a s e where l: "last g = (a, s, e)" by (cases "last g") auto
  from assms(2) have "last g \<in> set g" by (rule last_in_set)
  with l have mem: "(a, s, e) \<in> set g" by simp
  from n l have "a \<notin> pid ` set P" by (simp add: actor_def)
  with w mem obtain p where p: "p \<in> set P" "s < arrival p"
    unfolding gaps_wait_def by blast
  from v p(1) obtain s' e' where iv: "(pid p, s', e') \<in> set g" "arrival p \<le> s'" by blast
  from sorted_le_last [OF contiguous_sorted [OF c] iv(1)] l have "s' \<le> s"
    by (simp add: start_of_def)
  with p(2) iv(2) show False by simp
qed

lemma gantt_end_max_completion:
  assumes "served P g"
  shows "gantt_end 0 g = max_completion P g"
proof (cases "g = []")
  case True
  then show ?thesis by (simp add: max_completion_def)
next
  case False
  from assms have c: "contiguous_from 0 g" by (simp add: served_def)
  let ?E = "set (0 # map end_of (filter (\<lambda>iv. actor iv \<in> pid ` set P) g))"
  from False have l: "last g \<in> set g" by (rule last_in_set)
  have e: "gantt_end 0 g = end_of (last g)" using False by (rule gantt_end_last)
  have "Max ?E = gantt_end 0 g"
  proof (rule Max_eqI)
    show "finite ?E" by simp
    fix y assume "y \<in> ?E"
    then have "y = 0 \<or> (\<exists>iv\<in>set g. y = end_of iv)" by auto
    with contiguous_bounds [OF c] contiguous_bounds [OF c l]
    show "y \<le> gantt_end 0 g" by fastforce
  next
    from served_last_actor [OF assms False] l show "gantt_end 0 g \<in> ?E"
      unfolding e by simp
  qed
  then show ?thesis by (simp add: max_completion_def)
qed

lemma justified_at:
  "timeline_justified procs pre g \<Longrightarrow> g = b @ iv # a \<Longrightarrow> interval_justified procs (pre @ b) iv"
  by (simp add: timeline_justified_append)

lemma iterate_stop: "body s = Inr r \<Longrightarrow> iterate body s = Some r"
  by (subst iterate.simps) simp

lemma policies_on_empty:
  "fcfs [] = []"
  "sjf_nonpreemptive [] = Some (Inr [])"
  "sjf_preemptive [] = Some (Inr [])"
  "round_robin [] q = Some (Inr [])"
  "priority_nonpreemptive [] = Some (Inr [])"
  "priority_preemptive [] = Some (Inr [])"
  by (simp_all add: fcfs_def sjf_nonpreemptive_def sjf_preemptive_def round_robin_def
      priority_nonpreemptive_def priority_preemptive_def copies_def iterate_stop)

lemma select_algorithm_empty: "select_algorithm k q [] = Some (Inr [])"
  by (simp add: select_algorithm_def policies_on_empty)

lemma pid_procs_of: "pid ` set (procs_of ds) = d_pid ` set ds"
  by (simp add: procs_of_def image_image)

lemma simulate_result:
  assumes "select_algorithm k q (procs_of ds) = Some (Inr g)"
    and "compute_metrics_from_gantt ds g = Inr (rows, a)"
  shows "simulate ds k q = Some (Inr (g, rows, a))"
  using assms by (simp add: simulate_def)

lemma actors_known:
  assumes "served (procs_of ds) g"
  shows "actor ` set g \<subseteq> insert ''idle'' (d_pid ` set ds)"
  using assms by (auto simp: served_def pid_procs_of actor_def)

section \<open>Round Robin with a quantum that is not positive\<close>

text \<open>A process that is run keeps all of its remaining time and is queued again, so the
  queue is never empty once a process has arrived.\<close>

lemma round_robin_diverges:
  assumes "quantum \<le> 0" and "procs \<noteq> []" and "\<forall>p\<in>set procs. 0 < burst p"
  shows "round_robin procs quantum = None"
proof -
  define I :: "np_state \<Rightarrow> bool" where
    "I s \<longleftrightarrow> (case s of (t, g, q, l) \<Rightarrow>
       (q \<noteq> [] \<or> l \<noteq> []) \<and> (\<forall>p\<in>set q \<union> set l. 0 < remaining p))" for s
  have "iterate (round_robin_body quantum) (0, [], [], copies procs) = None"
  proof (rule iterate_None [where I = I])
    show "I (0, [], [], copies procs)"
      using assms(2,3) by (auto simp: I_def copies_def Proc_def)
  next
    fix s assume inv: "I s"
    obtain t g q l where s: "s = (t, g, q, l)" by (cases s) auto
    let ?adm = "filter (\<lambda>p. arrival p \<le> t) l"
    let ?rest = "filter (\<lambda>p. \<not> arrival p \<le> t) l"
    from inv have ne: "\<not> (l = [] \<and> q = [])" and pos: "\<forall>p\<in>set q \<union> set l. 0 < remaining p"
      by (auto simp: I_def s)
    show "\<exists>s'. round_robin_body quantum s = Inl s' \<and> I s'"
    proof (cases "q @ ?adm")
      case Nil
      then have q: "q = []" and a: "?adm = []" by simp_all
      from a have "?rest = l" by (auto simp: filter_empty_conv filter_id_conv)
      with ne q have rest: "?rest \<noteq> []" by simp
      then obtain m where m: "py_min arrival ?rest = Some m" by (cases "py_min arrival ?rest") auto
      have "round_robin_body quantum s =
          Inl (arrival m, g @ [(''idle'', t, arrival m)], [], ?rest)"
        using ne Nil rest m by (simp add: s admit_eq Let_def)
      moreover have "I (arrival m, g @ [(''idle'', t, arrival m)], [], ?rest)"
        using rest pos by (auto simp: I_def)
      ultimately show ?thesis by blast
    next
      case (Cons p qs)
      have "set (q @ ?adm) \<subseteq> set q \<union> set l" by auto
      then have "p \<in> set q \<union> set l" "set qs \<subseteq> set q \<union> set l"
        unfolding Cons by simp_all
      with pos have p: "0 < remaining p" and qs: "\<forall>x\<in>set qs. 0 < remaining x" by auto
      let ?run = "min quantum (remaining p)"
      let ?p' = "p\<lparr>remaining := remaining p - ?run\<rparr>"
      let ?t' = "t + ?run"
      let ?adm2 = "filter (\<lambda>x. arrival x \<le> ?t') ?rest"
      let ?rest2 = "filter (\<lambda>x. \<not> arrival x \<le> ?t') ?rest"
      let ?s' = "(?t', g @ [(pid p, t, ?t')], (qs @ ?adm2) @ [?p'], ?rest2)"
      from assms(1) p have keep: "0 < remaining ?p'" by simp
      have "round_robin_body quantum s = Inl ?s'"
        using ne Cons p keep by (simp add: s admit_eq Let_def)
      moreover have "I ?s'"
        using keep qs pos by (auto simp: I_def)
      ultimately show ?thesis by blast
    qed
  qed
  then show ?thesis by (simp add: round_robin_def)
qed

section \<open>A mean that is too large for a float\<close>

lemma two_to_1024_too_large: "double_limit \<le> of_int ((2::int) ^ 1024)"
proof -
  have "of_int ((2::int) ^ 1024) = pow2 1024" by (simp only: pow2_numeral of_int_power of_int_numeral)
  with double_limit_bounds(2) show ?thesis by (simp only: less_imp_le)
qed

lemma pos_of_big:
  assumes "double_limit \<le> of_int b"
  shows "0 < b"
proof -
  from assms double_limit_bounds(3) have "(0::rat) < of_int b" by linarith
  then show ?thesis by (simp only: of_int_0_less_iff)
qed

lemma metrics_overflow:
  assumes "double_limit \<le> of_int b"
  shows "compute_metrics_from_gantt
       [\<lparr>d_pid = ''P1'', d_arrival = 0, d_burst = b, d_priority = 0\<rparr>] [(''P1'', 0, b)] =
     Inl OverflowError"
proof -
  from pos_of_big [OF assms] have pos: "0 < b" .
  from assms pos have "double_limit \<le> \<bar>of_int b :: rat\<bar>" by simp
  then have r: "round_to_double (of_int b) = Inl OverflowError"
    by (simp only: round_to_double_overflow)
  have row: "make_row [''P1'' \<mapsto> Some 0] [''P1'' \<mapsto> Some b]
      (''P1'', \<lparr>i_arrival = 0, i_burst = b, i_priority = 0\<rparr>) =
      Inr \<lparr>r_pid = ''P1'', r_arrival = 0, r_burst = b, r_start = Some 0, r_completion = Some b,
            r_TAT = Some b, r_WT = Some 0, r_RT = Some 0, r_priority = 0\<rparr>"
    by (simp add: make_row_def)
  have a: "average r_TAT [\<lparr>r_pid = ''P1'', r_arrival = 0, r_burst = b, r_start = Some 0, r_completion = Some b,
            r_TAT = Some b, r_WT = Some 0, r_RT = Some 0, r_priority = 0\<rparr>] = Inl OverflowError"
    using pos r by (simp add: average_def int_true_divide_def)
  show ?thesis
    by (simp add: compute_metrics_from_gantt_def build_info_def none_for_def row a Let_def)
qed



section \<open>The claims\<close>

text \<open>
  C9. Round Robin with quantum 2 on P1 (arrival 0, burst 5) and P2 (arrival 1, burst 3)
  returns exactly the timeline P1 0-2, P2 2-4, P1 4-6, P2 6-7, P1 7-8: P2, which arrives
  during the first slice, is queued before P1 is queued again. The time each process
  gets is its burst, so its remaining time is 0 after its last interval.
\<close>

theorem round_robin_scenario:
  "round_robin [Proc ''P1'' 0 5 0, Proc ''P2'' 1 3 0] 2 =
     Some (Inr [(''P1'', 0, 2), (''P2'', 2, 4), (''P1'', 4, 6), (''P2'', 6, 7), (''P1'', 7, 8)]) \<and>
   run_time ''P1'' [(''P1'', 0, 2), (''P2'', 2, 4), (''P1'', 4, 6), (''P2'', 6, 7), (''P1'', 7, 8)] = 5 \<and>
   run_time ''P2'' [(''P1'', 0, 2), (''P2'', 2, 4), (''P1'', 4, 6), (''P2'', 6, 7), (''P1'', 7, 8)] = 3"
  by code_simp

text \<open>
  C1, as stated, fails: nothing rejects a quantum that is not positive. With quantum 0
  the loop appends an interval of length 0 for P1 and queues P1 again, forever: neither
  \<^const>\<open>round_robin\<close> nor \<^const>\<open>simulate\<close> returns.
\<close>

theorem round_robin_zero_quantum_diverges:
  "round_robin [Proc ''P1'' 0 1 0] 0 = None \<and>
   simulate [\<lparr>d_pid = ''P1'', d_arrival = 0, d_burst = 1, d_priority = 0\<rparr>] ''rr'' 0 = None"
proof -
  let ?p = "Proc ''P1'' 0 1 0"
  define I :: "np_state \<Rightarrow> bool"
    where "I s \<longleftrightarrow> s = (0, [], [], [?p]) \<or> (\<exists>g. s = (0, g, [?p], []))" for s
  have "iterate (round_robin_body 0) (0, [], [], [?p]) = None"
  proof (rule iterate_None [where I = I])
    show "I (0, [], [], [?p])" by (simp add: I_def)
  next
    fix s assume "I s"
    then show "\<exists>s'. round_robin_body 0 s = Inl s' \<and> I s'"
      by (auto simp: I_def admit_eq Proc_def)
  qed
  then have "round_robin [?p] 0 = None"
    by (simp add: round_robin_def copies_def Proc_def)
  then show ?thesis
    by (simp add: simulate_def select_algorithm_simps procs_of_def)
qed

text \<open>
  C1, amended. The quantum is handed to \<^verbatim>\<open>round_robin\<close> as it is, whatever its value:
  what the selector answers for \<open>rr\<close> is what \<^verbatim>\<open>round_robin\<close> does with that quantum,
  and nothing is rejected. For every positive quantum \<^verbatim>\<open>round_robin\<close> returns a
  timeline on every list of processes, whatever their arrivals, bursts and pids. For a
  quantum that is not positive and a list, not empty, of processes with positive bursts
  it never returns, and so neither does \<^verbatim>\<open>simulate\<close>.
\<close>

theorem round_robin_positive_quantum_returns:
  "select_algorithm ''rr'' quantum procs = round_robin procs quantum \<and>
   (0 < quantum \<longrightarrow> (\<exists>g. round_robin procs quantum = Some (Inr g))) \<and>
   (quantum \<le> 0 \<and> procs \<noteq> [] \<and> (\<forall>p\<in>set procs. 0 < burst p) \<longrightarrow>
      round_robin procs quantum = None \<and>
      (\<forall>ds. procs_of ds = procs \<longrightarrow> simulate ds ''rr'' quantum = None))"
proof -
  have 1: "select_algorithm ''rr'' quantum procs = round_robin procs quantum"
    by (simp add: select_algorithm_simps)
  have 2: "\<exists>g. round_robin procs quantum = Some (Inr g)" if "0 < quantum"
    using that by (rule round_robin_returns)
  have 3: "round_robin procs quantum = None \<and>
      (\<forall>ds. procs_of ds = procs \<longrightarrow> simulate ds ''rr'' quantum = None)"
    if "quantum \<le> 0 \<and> procs \<noteq> [] \<and> (\<forall>p\<in>set procs. 0 < burst p)"
  proof -
    from that have n: "round_robin procs quantum = None" by (intro round_robin_diverges) simp_all
    then have "simulate ds ''rr'' quantum = None" if "procs_of ds = procs" for ds
      using that by (simp add: simulate_def select_algorithm_simps)
    with n show ?thesis by blast
  qed
  from 1 2 3 show ?thesis by blast
qed

theorem round_robin_positive_quantum_returns_witness:
  "(0::int) < 2 \<and>
   select_algorithm ''rr'' 2 [Proc ''P1'' 0 5 0, Proc ''P2'' 1 3 0] =
     round_robin [Proc ''P1'' 0 5 0, Proc ''P2'' 1 3 0] 2 \<and>
   (\<exists>g. round_robin [Proc ''P1'' 0 5 0, Proc ''P2'' 1 3 0] 2 = Some (Inr g)) \<and>
   (- 1::int) \<le> 0 \<and> [Proc ''P1'' 0 5 0, Proc ''P2'' 1 3 0] \<noteq> [] \<and>
   list_all (\<lambda>p. 0 < burst p) [Proc ''P1'' 0 5 0, Proc ''P2'' 1 3 0] \<and>
   select_algorithm ''rr'' (- 1) [Proc ''P1'' 0 5 0, Proc ''P2'' 1 3 0] =
     round_robin [Proc ''P1'' 0 5 0, Proc ''P2'' 1 3 0] (- 1) \<and>
   round_robin [Proc ''P1'' 0 5 0, Proc ''P2'' 1 3 0] (- 1) = None \<and>
   simulate [\<lparr>d_pid = ''P1'', d_arrival = 0, d_burst = 5, d_priority = 0\<rparr>,
             \<lparr>d_pid = ''P2'', d_arrival = 1, d_burst = 3, d_priority = 0\<rparr>] ''rr'' (- 1) = None"
proof -
  let ?P = "[Proc ''P1'' 0 5 0, Proc ''P2'' 1 3 0]"
  let ?ds = "[\<lparr>d_pid = ''P1'', d_arrival = 0, d_burst = 5, d_priority = 0\<rparr>,
             \<lparr>d_pid = ''P2'', d_arrival = 1, d_burst = 3, d_priority = 0\<rparr>]"
  have h: "(- 1::int) \<le> 0 \<and> ?P \<noteq> [] \<and> (\<forall>p\<in>set ?P. 0 < burst p)"
    by (simp add: Proc_def)
  have d: "procs_of ?ds = ?P" by (simp add: procs_of_def)
  from round_robin_positive_quantum_returns [of 2 ?P]
  have a: "select_algorithm ''rr'' 2 ?P = round_robin ?P 2 \<and>
      (\<exists>g. round_robin ?P 2 = Some (Inr g))" by simp
  from round_robin_positive_quantum_returns [of "- 1" ?P] h d
  have b: "select_algorithm ''rr'' (- 1) ?P = round_robin ?P (- 1) \<and>
      round_robin ?P (- 1) = None \<and> simulate ?ds ''rr'' (- 1) = None" by blast
  have c: "list_all (\<lambda>p. 0 < burst p) ?P" by (simp add: Proc_def)
  from a b c show ?thesis by simp
qed

text \<open>
  C2, as stated, fails: an algorithm key that is none of the six reaches the final
  \<^verbatim>\<open>else\<close>, which runs \<^verbatim>\<open>fcfs\<close>. The request is answered with a timeline, rows and
  averages.
\<close>

theorem unknown_key_is_answered:
  "simulate [\<lparr>d_pid = ''P1'', d_arrival = 0, d_burst = 3, d_priority = 0\<rparr>] ''bogus'' 2 =
     Some (Inr ([(''P1'', 0, 3)],
       [\<lparr>r_pid = ''P1'', r_arrival = 0, r_burst = 3, r_start = Some 0, r_completion = Some 3,
          r_TAT = Some 3, r_WT = Some 0, r_RT = Some 0, r_priority = 0\<rparr>],
       \<lparr>avg_tat = Some (Double 3), avg_wt = Some (Double 0), avg_rt = Some (Double 0)\<rparr>))"
  by code_simp

text \<open>
  C2, amended. For every descriptor list, an algorithm key that is none of the six is
  served by \<^verbatim>\<open>fcfs\<close>: the timeline is the one of \<^verbatim>\<open>fcfs\<close>, and the rows and averages are
  computed from it.
\<close>

theorem unknown_key_runs_fcfs:
  "algorithm \<notin> set policy_keys \<Longrightarrow>
     select_algorithm algorithm quantum procs = Some (Inr (fcfs procs)) \<and>
     simulate proc_desc algorithm quantum = simulate proc_desc ''fcfs'' quantum"
  by (simp add: select_algorithm_def simulate_def policy_keys_def)

theorem unknown_key_runs_fcfs_witness:
  "''bogus'' \<notin> set policy_keys \<and>
   select_algorithm ''bogus'' 2 [Proc ''P1'' 0 3 0] = Some (Inr (fcfs [Proc ''P1'' 0 3 0])) \<and>
   simulate [\<lparr>d_pid = ''P1'', d_arrival = 0, d_burst = 3, d_priority = 0\<rparr>] ''bogus'' 2 =
     simulate [\<lparr>d_pid = ''P1'', d_arrival = 0, d_burst = 3, d_priority = 0\<rparr>] ''fcfs'' 2"
proof -
  have h: "''bogus'' \<notin> set policy_keys" by (simp add: policy_keys_def)
  from h unknown_key_runs_fcfs [OF h] show ?thesis by blast
qed

text \<open>
  C7 does not hold of the code. When a newcomer is chosen over the running process, the
  loop closes the interval of the running process and replaces \<^verbatim>\<open>current\<close>, but the
  process that was running is put back in no list: it never runs again. Here P2 takes
  the CPU from P1 at tick 1, and at tick 3 P3 runs, with key (10, 2) under
  \<^verbatim>\<open>sjf_preemptive\<close> and (3, 2, 10) under \<^verbatim>\<open>priority_preemptive\<close>, while P1 has
  arrived, has had 1 of its 5 ticks and has the smaller key, (4, 0) and (2, 0, 4).
\<close>

theorem preempted_process_is_lost:
  "sjf_preemptive [Proc ''P1'' 0 5 0, Proc ''P2'' 1 2 0, Proc ''P3'' 2 10 0] =
     Some (Inr [(''P1'', 0, 1), (''P2'', 1, 3), (''P3'', 3, 13)]) \<and>
   running_at [Proc ''P1'' 0 5 0, Proc ''P2'' 1 2 0, Proc ''P3'' 2 10 0]
       [(''P1'', 0, 1), (''P2'', 1, 3), (''P3'', 3, 13)] 3 =
     [Proc ''P3'' 2 10 0] \<and>
   unfinished_at [Proc ''P1'' 0 5 0, Proc ''P2'' 1 2 0, Proc ''P3'' 2 10 0]
       [(''P1'', 0, 1), (''P2'', 1, 3), (''P3'', 3, 13)] 3 =
     [(Proc ''P1'' 0 5 0)\<lparr>remaining := 4\<rparr>, Proc ''P3'' 2 10 0] \<and>
   \<not> minimal_key_runs (\<lambda>x. (remaining x, arrival x))
       [Proc ''P1'' 0 5 0, Proc ''P2'' 1 2 0, Proc ''P3'' 2 10 0]
       [(''P1'', 0, 1), (''P2'', 1, 3), (''P3'', 3, 13)] 3 \<and>
   priority_preemptive [Proc ''P1'' 0 5 2, Proc ''P2'' 1 2 1, Proc ''P3'' 2 10 3] =
     Some (Inr [(''P1'', 0, 1), (''P2'', 1, 3), (''P3'', 3, 13)]) \<and>
   \<not> minimal_key_runs (\<lambda>x. (priority x, arrival x, remaining x))
       [Proc ''P1'' 0 5 2, Proc ''P2'' 1 2 1, Proc ''P3'' 2 10 3]
       [(''P1'', 0, 1), (''P2'', 1, 3), (''P3'', 3, 13)] 3 \<and>
   run_time ''P1'' [(''P1'', 0, 1), (''P2'', 1, 3), (''P3'', 3, 13)] = 1"
  by code_simp

text \<open>
  C3. For each of the six policies and every well-formed input (and a positive quantum
  for \<open>rr\<close>) the policy returns a timeline in which every interval has
  \<open>start < end\<close>, the starts are ascending, no interval begins before an earlier one
  ends, the first interval starts at 0 and each next one where the one before ends, every
  tick from 0 up to the latest completion lies in an interval, no interval reaches beyond
  the latest completion, and every actor is a pid of the input or \<open>idle\<close>: the time no
  process has is covered by \<open>idle\<close> intervals. Every process of the input has an
  interval under its pid that starts no earlier than the process arrives, and an
  interval that carries no pid starts before some process arrives.
\<close>

theorem timelines_partition_time:
  assumes "well_formed procs" and "k \<in> set policy_keys" and "k = ''rr'' \<longrightarrow> 0 < quantum"
  shows "\<exists>g. select_algorithm k quantum procs = Some (Inr g) \<and>
     (\<forall>iv\<in>set g. start_of iv < end_of iv) \<and>
     sorted (map start_of g) \<and>
     sorted_wrt (\<lambda>x y. end_of x \<le> start_of y) g \<and>
     contiguous_from 0 g \<and>
     (\<forall>i. Suc i < length g \<longrightarrow> end_of (g ! i) = start_of (g ! Suc i)) \<and>
     (\<forall>x. 0 \<le> x \<and> x < max_completion procs g \<longrightarrow>
        (\<exists>iv\<in>set g. start_of iv \<le> x \<and> x < end_of iv)) \<and>
     (\<forall>iv\<in>set g. 0 \<le> start_of iv \<and> end_of iv \<le> max_completion procs g) \<and>
     (\<forall>iv\<in>set g. actor iv = ''idle'' \<or> actor iv \<in> pid ` set procs) \<and>
     (\<forall>p\<in>set procs. \<exists>s e. (pid p, s, e) \<in> set g \<and> arrival p \<le> s) \<and>
     (\<forall>iv\<in>set g. actor iv \<in> pid ` set procs \<or> (\<exists>p\<in>set procs. start_of iv < arrival p))"
proof -
  from select_served [OF assms] obtain g
    where g: "select_algorithm k quantum procs = Some (Inr g)" and s: "served procs g"
    by blast
  from s have c: "contiguous_from 0 g"
    and a: "\<forall>(a, s, e)\<in>set g. a = ''idle'' \<or> a \<in> pid ` set procs"
    and 8: "\<forall>p\<in>set procs. \<exists>s e. (pid p, s, e) \<in> set g \<and> arrival p \<le> s"
    and w: "gaps_wait procs g"
    by (simp_all add: served_def)
  have 9: "\<forall>iv\<in>set g. actor iv \<in> pid ` set procs \<or> (\<exists>p\<in>set procs. start_of iv < arrival p)"
  proof
    fix iv assume iv: "iv \<in> set g"
    obtain a s e where e: "iv = (a, s, e)" by (cases iv) auto
    from w iv e have "a \<in> pid ` set procs \<or> (\<exists>p\<in>set procs. s < arrival p)"
      unfolding gaps_wait_def by blast
    then show "actor iv \<in> pid ` set procs \<or> (\<exists>p\<in>set procs. start_of iv < arrival p)"
      by (simp add: e actor_def start_of_def)
  qed
  have 1: "\<forall>iv\<in>set g. start_of iv < end_of iv"
    using contiguous_bounds [OF c] by blast
  have 2: "sorted (map start_of g)" using c by (rule contiguous_sorted)
  have 3: "sorted_wrt (\<lambda>x y. end_of x \<le> start_of y) g" using c by (rule contiguous_no_overlap)
  note m = gantt_end_max_completion [OF s]
  have 4: "\<forall>x. 0 \<le> x \<and> x < max_completion procs g \<longrightarrow>
      (\<exists>iv\<in>set g. start_of iv \<le> x \<and> x < end_of iv)"
    using contiguous_cover [OF c] unfolding m [symmetric] by blast
  have 5: "\<forall>iv\<in>set g. 0 \<le> start_of iv \<and> end_of iv \<le> max_completion procs g"
    using contiguous_bounds [OF c] unfolding m [symmetric] by blast
  have 6: "\<forall>i. Suc i < length g \<longrightarrow> end_of (g ! i) = start_of (g ! Suc i)"
    using contiguous_adjacent [OF c] by blast
  have 7: "\<forall>iv\<in>set g. actor iv = ''idle'' \<or> actor iv \<in> pid ` set procs"
    using a by (auto simp: actor_def)
  from g 1 2 3 c 6 4 5 7 8 9 show ?thesis by blast
qed

theorem timelines_partition_time_witness:
  "well_formed [Proc ''P1'' 0 5 0, Proc ''P2'' 1 3 0] \<and> ''rr'' \<in> set policy_keys \<and> (0::int) < 2 \<and>
   (\<exists>g. select_algorithm ''rr'' 2 [Proc ''P1'' 0 5 0, Proc ''P2'' 1 3 0] = Some (Inr g) \<and>
     (\<forall>iv\<in>set g. start_of iv < end_of iv) \<and>
     sorted (map start_of g) \<and>
     sorted_wrt (\<lambda>x y. end_of x \<le> start_of y) g \<and>
     contiguous_from 0 g \<and>
     (\<forall>i. Suc i < length g \<longrightarrow> end_of (g ! i) = start_of (g ! Suc i)) \<and>
     (\<forall>x. 0 \<le> x \<and> x < max_completion [Proc ''P1'' 0 5 0, Proc ''P2'' 1 3 0] g \<longrightarrow>
        (\<exists>iv\<in>set g. start_of iv \<le> x \<and> x < end_of iv)) \<and>
     (\<forall>iv\<in>set g. 0 \<le> start_of iv \<and> end_of iv \<le> max_completion [Proc ''P1'' 0 5 0, Proc ''P2'' 1 3 0] g) \<and>
     (\<forall>iv\<in>set g. actor iv = ''idle'' \<or>
        actor iv \<in> pid ` set [Proc ''P1'' 0 5 0, Proc ''P2'' 1 3 0]) \<and>
     (\<forall>p\<in>set [Proc ''P1'' 0 5 0, Proc ''P2'' 1 3 0].
        \<exists>s e. (pid p, s, e) \<in> set g \<and> arrival p \<le> s) \<and>
     (\<forall>iv\<in>set g. actor iv \<in> pid ` set [Proc ''P1'' 0 5 0, Proc ''P2'' 1 3 0] \<or>
        (\<exists>p\<in>set [Proc ''P1'' 0 5 0, Proc ''P2'' 1 3 0]. start_of iv < arrival p)))"
proof -
  have h1: "well_formed [Proc ''P1'' 0 5 0, Proc ''P2'' 1 3 0]"
    by (simp add: well_formed_def)
  have h2: "''rr'' \<in> set policy_keys" by (simp add: policy_keys_def)
  have h3: "''rr'' = ''rr'' \<longrightarrow> (0::int) < 2" by simp
  show ?thesis
    by (rule conjI [OF h1 conjI [OF h2 conjI [OF _ timelines_partition_time [OF h1 h2 h3]]]])
      simp
qed

text \<open>
  C4, as stated, fails. The label \<open>idle\<close> is also a pid a well-formed input may use:
  under \<^verbatim>\<open>fcfs\<close> the process \<open>idle\<close> (arrival 5, burst 3) shares its label with the gap
  before it, and the intervals labelled \<open>idle\<close> add up to 8. And a preempted process is
  lost (see C7): under \<^verbatim>\<open>sjf_preemptive\<close> P1 (burst 5) gets 1 tick.
\<close>

theorem time_given_is_not_the_burst:
  "well_formed [Proc ''idle'' 5 3 0] \<and>
   fcfs [Proc ''idle'' 5 3 0] = [(''idle'', 0, 5), (''idle'', 5, 8)] \<and>
   run_time ''idle'' (fcfs [Proc ''idle'' 5 3 0]) = 8 \<and>
   burst (Proc ''idle'' 5 3 0) = 3 \<and>
   well_formed [Proc ''P1'' 0 5 0, Proc ''P2'' 1 2 0] \<and>
   sjf_preemptive [Proc ''P1'' 0 5 0, Proc ''P2'' 1 2 0] =
     Some (Inr [(''P1'', 0, 1), (''P2'', 1, 3)]) \<and>
   run_time ''P1'' [(''P1'', 0, 1), (''P2'', 1, 3)] = 1"
  by code_simp

text \<open>
  C4, amended. For \<open>fcfs\<close>, \<open>sjf-np\<close>, \<open>rr\<close> (with a positive quantum) and \<open>priority-np\<close>,
  every well-formed input and every process of it whose pid is not \<open>idle\<close>, the
  interval lengths of the timeline that carry the pid add up to exactly the burst.
\<close>

theorem list_policies_give_each_burst:
  assumes "well_formed procs" and "k \<in> set list_policy_keys" and "k = ''rr'' \<longrightarrow> 0 < quantum"
  shows "\<exists>g. select_algorithm k quantum procs = Some (Inr g) \<and>
     (\<forall>p\<in>set procs. pid p \<noteq> ''idle'' \<longrightarrow> run_time (pid p) g = burst p)"
  using select_schedule [OF assms] by (auto simp: schedule_def)

theorem list_policies_give_each_burst_witness:
  "well_formed [Proc ''P1'' 0 5 0, Proc ''P2'' 1 3 0] \<and> ''rr'' \<in> set list_policy_keys \<and>
   (0::int) < 2 \<and>
   (\<exists>g. select_algorithm ''rr'' 2 [Proc ''P1'' 0 5 0, Proc ''P2'' 1 3 0] = Some (Inr g) \<and>
     (\<forall>p\<in>set [Proc ''P1'' 0 5 0, Proc ''P2'' 1 3 0].
        pid p \<noteq> ''idle'' \<longrightarrow> run_time (pid p) g = burst p))"
proof -
  have h1: "well_formed [Proc ''P1'' 0 5 0, Proc ''P2'' 1 3 0]"
    by (simp add: well_formed_def)
  have h2: "''rr'' \<in> set list_policy_keys" by (simp add: list_policy_keys_def)
  have h3: "''rr'' = ''rr'' \<longrightarrow> (0::int) < 2" by simp
  show ?thesis
    by (rule conjI [OF h1 conjI [OF h2 conjI [OF _ list_policies_give_each_burst [OF h1 h2 h3]]]])
      simp
qed

text \<open>
  C5. On every well-formed input each of the six policies returns a timeline: no loop
  runs forever and no exception is raised (\<^verbatim>\<open>round_robin\<close> for every positive
  quantum). \<^verbatim>\<open>fcfs\<close> is a sort and one pass over the list.
\<close>

theorem policies_return:
  assumes "well_formed procs"
  shows "select_algorithm ''fcfs'' quantum procs = Some (Inr (fcfs procs)) \<and>
     (\<exists>g. sjf_nonpreemptive procs = Some (Inr g)) \<and>
     (\<exists>g. sjf_preemptive procs = Some (Inr g)) \<and>
     (0 < quantum \<longrightarrow> (\<exists>g. round_robin procs quantum = Some (Inr g))) \<and>
     (\<exists>g. priority_nonpreemptive procs = Some (Inr g)) \<and>
     (\<exists>g. priority_preemptive procs = Some (Inr g))"
  using sjf_nonpreemptive_ok [OF assms] sjf_preemptive_ok [OF assms]
    round_robin_ok [OF assms, of quantum] priority_nonpreemptive_ok [OF assms]
    priority_preemptive_ok [OF assms]
  by (simp add: select_algorithm_simps) blast

theorem policies_return_witness:
  "well_formed [Proc ''P1'' 0 5 2, Proc ''P2'' 1 2 1, Proc ''P3'' 2 10 3] \<and>
   select_algorithm ''fcfs'' 2 [Proc ''P1'' 0 5 2, Proc ''P2'' 1 2 1, Proc ''P3'' 2 10 3] =
     Some (Inr (fcfs [Proc ''P1'' 0 5 2, Proc ''P2'' 1 2 1, Proc ''P3'' 2 10 3])) \<and>
   (\<exists>g. sjf_nonpreemptive [Proc ''P1'' 0 5 2, Proc ''P2'' 1 2 1, Proc ''P3'' 2 10 3] =
      Some (Inr g)) \<and>
   (\<exists>g. sjf_preemptive [Proc ''P1'' 0 5 2, Proc ''P2'' 1 2 1, Proc ''P3'' 2 10 3] =
      Some (Inr g)) \<and>
   (0::int) < 2 \<and>
   (\<exists>g. round_robin [Proc ''P1'' 0 5 2, Proc ''P2'' 1 2 1, Proc ''P3'' 2 10 3] 2 =
      Some (Inr g)) \<and>
   (\<exists>g. priority_nonpreemptive [Proc ''P1'' 0 5 2, Proc ''P2'' 1 2 1, Proc ''P3'' 2 10 3] =
      Some (Inr g)) \<and>
   (\<exists>g. priority_preemptive [Proc ''P1'' 0 5 2, Proc ''P2'' 1 2 1, Proc ''P3'' 2 10 3] =
      Some (Inr g))"
proof -
  have h: "well_formed [Proc ''P1'' 0 5 2, Proc ''P2'' 1 2 1, Proc ''P3'' 2 10 3]"
    by (simp add: well_formed_def)
  from policies_return [OF h, of 2] h show ?thesis by simp
qed

text \<open>
  C6, as stated, fails. Not every timeline is accepted: an interval whose actor is neither
  \<open>idle\<close> nor a pid of the descriptor list makes \<^verbatim>\<open>starts[pid]\<close> raise KeyError, and no
  rows are returned. And the averages are floats: a mean of \<open>2^1024\<close> makes the division
  raise OverflowError, and the mean of the TATs 1, 2 and 4 is returned as the double next
  to 7/3, which is not 7/3.
\<close>

theorem unknown_actor_raises:
  "compute_metrics_from_gantt [] [(''P1'', 0, 1)] = Inl KeyError \<and>
   compute_metrics_from_gantt
     [\<lparr>d_pid = ''P1'', d_arrival = 0, d_burst = 2 ^ 1024, d_priority = 0\<rparr>]
     [(''P1'', 0, 2 ^ 1024)] = Inl OverflowError \<and>
   compute_metrics_from_gantt
     [\<lparr>d_pid = ''P1'', d_arrival = 0, d_burst = 1, d_priority = 0\<rparr>,
      \<lparr>d_pid = ''P2'', d_arrival = 0, d_burst = 1, d_priority = 0\<rparr>,
      \<lparr>d_pid = ''P3'', d_arrival = 0, d_burst = 2, d_priority = 0\<rparr>]
     [(''P1'', 0, 1), (''P2'', 1, 2), (''P3'', 2, 4)] =
   Inr ([\<lparr>r_pid = ''P1'', r_arrival = 0, r_burst = 1, r_start = Some 0, r_completion = Some 1,
           r_TAT = Some 1, r_WT = Some 0, r_RT = Some 0, r_priority = 0\<rparr>,
         \<lparr>r_pid = ''P2'', r_arrival = 0, r_burst = 1, r_start = Some 1, r_completion = Some 2,
           r_TAT = Some 2, r_WT = Some 1, r_RT = Some 1, r_priority = 0\<rparr>,
         \<lparr>r_pid = ''P3'', r_arrival = 0, r_burst = 2, r_start = Some 2, r_completion = Some 4,
           r_TAT = Some 4, r_WT = Some 2, r_RT = Some 2, r_priority = 0\<rparr>],
        \<lparr>avg_tat = Some (Double (5254199565265579 / 2251799813685248)),
           avg_wt = Some (Double 1), avg_rt = Some (Double 1)\<rparr>) \<and>
   mean [1, 2, 4] = Some (7 / 3) \<and>
   (5254199565265579 / 2251799813685248 :: rat) \<noteq> 7 / 3"
proof -
  have 1: "compute_metrics_from_gantt [] [(''P1'', 0, 1)] = Inl KeyError" by code_simp
  have 2: "compute_metrics_from_gantt
     [\<lparr>d_pid = ''P1'', d_arrival = 0, d_burst = 2 ^ 1024, d_priority = 0\<rparr>]
     [(''P1'', 0, 2 ^ 1024)] = Inl OverflowError"
    using two_to_1024_too_large by (rule metrics_overflow)
  have 3: "compute_metrics_from_gantt
     [\<lparr>d_pid = ''P1'', d_arrival = 0, d_burst = 1, d_priority = 0\<rparr>,
      \<lparr>d_pid = ''P2'', d_arrival = 0, d_burst = 1, d_priority = 0\<rparr>,
      \<lparr>d_pid = ''P3'', d_arrival = 0, d_burst = 2, d_priority = 0\<rparr>]
     [(''P1'', 0, 1), (''P2'', 1, 2), (''P3'', 2, 4)] =
   Inr ([\<lparr>r_pid = ''P1'', r_arrival = 0, r_burst = 1, r_start = Some 0, r_completion = Some 1,
           r_TAT = Some 1, r_WT = Some 0, r_RT = Some 0, r_priority = 0\<rparr>,
         \<lparr>r_pid = ''P2'', r_arrival = 0, r_burst = 1, r_start = Some 1, r_completion = Some 2,
           r_TAT = Some 2, r_WT = Some 1, r_RT = Some 1, r_priority = 0\<rparr>,
         \<lparr>r_pid = ''P3'', r_arrival = 0, r_burst = 2, r_start = Some 2, r_completion = Some 4,
           r_TAT = Some 4, r_WT = Some 2, r_RT = Some 2, r_priority = 0\<rparr>],
        \<lparr>avg_tat = Some (Double (5254199565265579 / 2251799813685248)),
           avg_wt = Some (Double 1), avg_rt = Some (Double 1)\<rparr>)"
    by code_simp
  have 4: "mean [1, 2, 4] = Some (7 / 3)" by (simp add: mean_def)
  have 5: "(5254199565265579 / 2251799813685248 :: rat) \<noteq> 7 / 3" by simp
  from 1 2 3 4 5 show ?thesis by (intro conjI)
qed

text \<open>
  C6, amended. For every descriptor list and every timeline whose actors are \<open>idle\<close> or
  pids of the list, the metrics calculator builds one row per pid, in the order in which
  the pids first occur, with the arrival, burst and priority of the last descriptor of
  that pid. In each row, start and completion are the start of the first and the end of
  the last interval that carries the pid and is not labelled \<open>idle\<close>,
  TAT = completion - arrival, WT = TAT - burst, RT = start - arrival, and all five are null
  when there is no such interval. The three averages are taken over exactly the rows
  whose TAT is not null and are null when there is no such row. Each is a float: the
  arithmetic mean rounded to the nearest double, which differs from the mean by no more
  than \<open>2^-53\<close> of it. When one of the three means is \<open>2^1024 - 2^970\<close> or more in
  magnitude, the calculator raises OverflowError and returns neither rows nor averages;
  otherwise it returns the rows and the averages. The empty process list gives the empty
  timeline under every algorithm key and quantum, and for it no rows and null averages.
\<close>

theorem metrics_from_timeline:
  assumes "actor ` set gantt \<subseteq> insert ''idle'' (d_pid ` set proc_desc)"
  shows "\<exists>rows.
     map r_pid rows = first_occurrences (map d_pid proc_desc) \<and>
     distinct (map r_pid rows) \<and> r_pid ` set rows = d_pid ` set proc_desc \<and>
     (\<forall>r\<in>set rows.
        r_arrival r = d_arrival (descriptor_for proc_desc (r_pid r)) \<and>
        r_burst r = d_burst (descriptor_for proc_desc (r_pid r)) \<and>
        r_priority r = d_priority (descriptor_for proc_desc (r_pid r)) \<and>
        r_start r = first_start (r_pid r) gantt \<and>
        r_completion r = last_end (r_pid r) gantt \<and>
        r_TAT r = map_option (\<lambda>c. c - r_arrival r) (r_completion r) \<and>
        r_WT r = map_option (\<lambda>x. x - r_burst r) (r_TAT r) \<and>
        r_RT r = map_option (\<lambda>s. s - r_arrival r) (r_start r) \<and>
        ((\<forall>iv\<in>set gantt. actor iv = r_pid r \<longrightarrow> actor iv = ''idle'') \<longrightarrow>
           r_start r = None \<and> r_completion r = None \<and> r_TAT r = None \<and>
           r_WT r = None \<and> r_RT r = None)) \<and>
     (too_large (completed_values r_TAT rows) \<or> too_large (completed_values r_WT rows) \<or>
        too_large (completed_values r_RT rows) \<longrightarrow>
        compute_metrics_from_gantt proc_desc gantt = Inl OverflowError) \<and>
     (\<not> (too_large (completed_values r_TAT rows) \<or> too_large (completed_values r_WT rows) \<or>
        too_large (completed_values r_RT rows)) \<longrightarrow>
        (\<exists>a. compute_metrics_from_gantt proc_desc gantt = Inr (rows, a) \<and>
           Inr (avg_tat a) = rounded_mean (completed_values r_TAT rows) \<and>
           Inr (avg_wt a) = rounded_mean (completed_values r_WT rows) \<and>
           Inr (avg_rt a) = rounded_mean (completed_values r_RT rows) \<and>
           close_to_mean (avg_tat a) (completed_values r_TAT rows) \<and>
           close_to_mean (avg_wt a) (completed_values r_WT rows) \<and>
           close_to_mean (avg_rt a) (completed_values r_RT rows))) \<and>
     rounded_mean [] = Inr None \<and>
     (\<forall>k q. select_algorithm k q [] = Some (Inr [])) \<and>
     compute_metrics_from_gantt [] [] =
       Inr ([], \<lparr>avg_tat = None, avg_wt = None, avg_rt = None\<rparr>)"
proof -
  from assms have "\<forall>(a, s, e)\<in>set gantt. a \<noteq> ''idle'' \<longrightarrow> a \<in> d_pid ` set proc_desc"
    by (auto simp: actor_def)
  from compute_metrics_result [OF this] obtain rows
    where res: "compute_metrics_from_gantt proc_desc gantt = with_averages rows"
      and keys: "map r_pid rows = first_occurrences (map d_pid proc_desc)"
      and each: "\<forall>r\<in>set rows. row_matches gantt r \<and>
        r_arrival r = d_arrival (descriptor_for proc_desc (r_pid r)) \<and>
        r_burst r = d_burst (descriptor_for proc_desc (r_pid r)) \<and>
        r_priority r = d_priority (descriptor_for proc_desc (r_pid r))"
    by blast
  have d: "distinct (map r_pid rows)" unfolding keys by (rule first_occurrences_props)
  have "set (map r_pid rows) = set (map d_pid proc_desc)"
    unfolding keys by (rule first_occurrences_props)
  then have k: "r_pid ` set rows = d_pid ` set proc_desc" by simp
  have rows: "\<forall>r\<in>set rows.
        r_arrival r = d_arrival (descriptor_for proc_desc (r_pid r)) \<and>
        r_burst r = d_burst (descriptor_for proc_desc (r_pid r)) \<and>
        r_priority r = d_priority (descriptor_for proc_desc (r_pid r)) \<and>
        r_start r = first_start (r_pid r) gantt \<and>
        r_completion r = last_end (r_pid r) gantt \<and>
        r_TAT r = map_option (\<lambda>c. c - r_arrival r) (r_completion r) \<and>
        r_WT r = map_option (\<lambda>x. x - r_burst r) (r_TAT r) \<and>
        r_RT r = map_option (\<lambda>s. s - r_arrival r) (r_start r) \<and>
        ((\<forall>iv\<in>set gantt. actor iv = r_pid r \<longrightarrow> actor iv = ''idle'') \<longrightarrow>
           r_start r = None \<and> r_completion r = None \<and> r_TAT r = None \<and>
           r_WT r = None \<and> r_RT r = None)"
  proof
    fix r assume "r \<in> set rows"
    with each have m: "row_matches gantt r"
      and x: "r_arrival r = d_arrival (descriptor_for proc_desc (r_pid r))"
        "r_burst r = d_burst (descriptor_for proc_desc (r_pid r))"
        "r_priority r = d_priority (descriptor_for proc_desc (r_pid r))"
      by blast+
    have "r_start r = None \<and> r_completion r = None \<and> r_TAT r = None \<and>
           r_WT r = None \<and> r_RT r = None"
      if "\<forall>iv\<in>set gantt. actor iv = r_pid r \<longrightarrow> actor iv = ''idle''"
    proof -
      have "\<forall>(a, s, e)\<in>set gantt. a = r_pid r \<longrightarrow> r_pid r = ''idle''"
      proof (intro ballI, clarify)
        fix s e assume "(r_pid r, s, e) \<in> set gantt"
        with that have "actor (r_pid r, s, e) = r_pid r \<longrightarrow> actor (r_pid r, s, e) = ''idle''"
          by blast
        then show "r_pid r = ''idle''" by (simp add: actor_def)
      qed
      then have "first_start (r_pid r) gantt = None" "last_end (r_pid r) gantt = None"
        by (simp_all add: first_start_None last_end_None)
      with m show ?thesis by (simp add: row_matches_def)
    qed
    with m x show "r_arrival r = d_arrival (descriptor_for proc_desc (r_pid r)) \<and>
        r_burst r = d_burst (descriptor_for proc_desc (r_pid r)) \<and>
        r_priority r = d_priority (descriptor_for proc_desc (r_pid r)) \<and>
        r_start r = first_start (r_pid r) gantt \<and>
        r_completion r = last_end (r_pid r) gantt \<and>
        r_TAT r = map_option (\<lambda>c. c - r_arrival r) (r_completion r) \<and>
        r_WT r = map_option (\<lambda>x. x - r_burst r) (r_TAT r) \<and>
        r_RT r = map_option (\<lambda>s. s - r_arrival r) (r_start r) \<and>
        ((\<forall>iv\<in>set gantt. actor iv = r_pid r \<longrightarrow> actor iv = ''idle'') \<longrightarrow>
           r_start r = None \<and> r_completion r = None \<and> r_TAT r = None \<and>
           r_WT r = None \<and> r_RT r = None)"
      by (simp add: row_matches_def)
  qed
  note w = with_averages_result [of rows, folded res]
  have o1: "too_large (completed_values r_TAT rows) \<or> too_large (completed_values r_WT rows) \<or>
        too_large (completed_values r_RT rows) \<longrightarrow>
        compute_metrics_from_gantt proc_desc gantt = Inl OverflowError"
    using w by blast
  have o2: "\<not> (too_large (completed_values r_TAT rows) \<or> too_large (completed_values r_WT rows) \<or>
        too_large (completed_values r_RT rows)) \<longrightarrow>
        (\<exists>a. compute_metrics_from_gantt proc_desc gantt = Inr (rows, a) \<and>
           Inr (avg_tat a) = rounded_mean (completed_values r_TAT rows) \<and>
           Inr (avg_wt a) = rounded_mean (completed_values r_WT rows) \<and>
           Inr (avg_rt a) = rounded_mean (completed_values r_RT rows) \<and>
           close_to_mean (avg_tat a) (completed_values r_TAT rows) \<and>
           close_to_mean (avg_wt a) (completed_values r_WT rows) \<and>
           close_to_mean (avg_rt a) (completed_values r_RT rows))"
    using w by blast
  have e1: "rounded_mean [] = Inr None" by (simp add: rounded_mean_def mean_def)
  have e2: "\<forall>k q. select_algorithm k q [] = Some (Inr [])" by (simp add: select_algorithm_empty)
  have e3: "compute_metrics_from_gantt [] [] =
       Inr ([], \<lparr>avg_tat = None, avg_wt = None, avg_rt = None\<rparr>)"
    by (simp add: compute_metrics_from_gantt_def build_info_def none_for_def average_def)
  from keys d k rows o1 o2 e1 e2 e3 show ?thesis by blast
qed

theorem metrics_from_timeline_witness:
  "actor ` set [(''idle'', 0, 1), (''P1'', 1, 3), (''P2'', 3, 4), (''P1'', 4, 6)] \<subseteq>
     insert ''idle'' (d_pid ` set
       [\<lparr>d_pid = ''P1'', d_arrival = 1, d_burst = 4, d_priority = 0\<rparr>,
        \<lparr>d_pid = ''P2'', d_arrival = 2, d_burst = 1, d_priority = 0\<rparr>,
        \<lparr>d_pid = ''P3'', d_arrival = 9, d_burst = 1, d_priority = 0\<rparr>]) \<and>
   compute_metrics_from_gantt
     [\<lparr>d_pid = ''P1'', d_arrival = 1, d_burst = 4, d_priority = 0\<rparr>,
      \<lparr>d_pid = ''P2'', d_arrival = 2, d_burst = 1, d_priority = 0\<rparr>,
      \<lparr>d_pid = ''P3'', d_arrival = 9, d_burst = 1, d_priority = 0\<rparr>]
     [(''idle'', 0, 1), (''P1'', 1, 3), (''P2'', 3, 4), (''P1'', 4, 6)] =
   Inr ([\<lparr>r_pid = ''P1'', r_arrival = 1, r_burst = 4, r_start = Some 1, r_completion = Some 6,
           r_TAT = Some 5, r_WT = Some 1, r_RT = Some 0, r_priority = 0\<rparr>,
         \<lparr>r_pid = ''P2'', r_arrival = 2, r_burst = 1, r_start = Some 3, r_completion = Some 4,
           r_TAT = Some 2, r_WT = Some 1, r_RT = Some 1, r_priority = 0\<rparr>,
         \<lparr>r_pid = ''P3'', r_arrival = 9, r_burst = 1, r_start = None, r_completion = None,
           r_TAT = None, r_WT = None, r_RT = None, r_priority = 0\<rparr>],
        \<lparr>avg_tat = Some (Double (7 / 2)), avg_wt = Some (Double 1),
           avg_rt = Some (Double (1 / 2))\<rparr>) \<and>
   (\<exists>rows.
      map r_pid rows = first_occurrences (map d_pid
        [\<lparr>d_pid = ''P1'', d_arrival = 1, d_burst = 4, d_priority = 0\<rparr>,
         \<lparr>d_pid = ''P2'', d_arrival = 2, d_burst = 1, d_priority = 0\<rparr>,
         \<lparr>d_pid = ''P3'', d_arrival = 9, d_burst = 1, d_priority = 0\<rparr>]) \<and>
      (\<not> (too_large (completed_values r_TAT rows) \<or> too_large (completed_values r_WT rows) \<or>
         too_large (completed_values r_RT rows)) \<longrightarrow>
         (\<exists>a. compute_metrics_from_gantt
             [\<lparr>d_pid = ''P1'', d_arrival = 1, d_burst = 4, d_priority = 0\<rparr>,
              \<lparr>d_pid = ''P2'', d_arrival = 2, d_burst = 1, d_priority = 0\<rparr>,
              \<lparr>d_pid = ''P3'', d_arrival = 9, d_burst = 1, d_priority = 0\<rparr>]
             [(''idle'', 0, 1), (''P1'', 1, 3), (''P2'', 3, 4), (''P1'', 4, 6)] = Inr (rows, a) \<and>
            Inr (avg_tat a) = rounded_mean (completed_values r_TAT rows) \<and>
            Inr (avg_wt a) = rounded_mean (completed_values r_WT rows) \<and>
            Inr (avg_rt a) = rounded_mean (completed_values r_RT rows) \<and>
            close_to_mean (avg_tat a) (completed_values r_TAT rows) \<and>
            close_to_mean (avg_wt a) (completed_values r_WT rows) \<and>
            close_to_mean (avg_rt a) (completed_values r_RT rows))))"
proof -
  let ?ds = "[\<lparr>d_pid = ''P1'', d_arrival = 1, d_burst = 4, d_priority = 0\<rparr>,
      \<lparr>d_pid = ''P2'', d_arrival = 2, d_burst = 1, d_priority = 0\<rparr>,
      \<lparr>d_pid = ''P3'', d_arrival = 9, d_burst = 1, d_priority = 0\<rparr>]"
  let ?g = "[(''idle'', 0, 1), (''P1'', 1, 3), (''P2'', 3, 4), (''P1'', 4, 6)]"
  have h: "actor ` set ?g \<subseteq> insert ''idle'' (d_pid ` set ?ds)"
    by (simp add: actor_def)
  have v: "compute_metrics_from_gantt ?ds ?g =
   Inr ([\<lparr>r_pid = ''P1'', r_arrival = 1, r_burst = 4, r_start = Some 1, r_completion = Some 6,
           r_TAT = Some 5, r_WT = Some 1, r_RT = Some 0, r_priority = 0\<rparr>,
         \<lparr>r_pid = ''P2'', r_arrival = 2, r_burst = 1, r_start = Some 3, r_completion = Some 4,
           r_TAT = Some 2, r_WT = Some 1, r_RT = Some 1, r_priority = 0\<rparr>,
         \<lparr>r_pid = ''P3'', r_arrival = 9, r_burst = 1, r_start = None, r_completion = None,
           r_TAT = None, r_WT = None, r_RT = None, r_priority = 0\<rparr>],
        \<lparr>avg_tat = Some (Double (7 / 2)), avg_wt = Some (Double 1),
           avg_rt = Some (Double (1 / 2))\<rparr>)"
    by code_simp
  from metrics_from_timeline [OF h] have "\<exists>rows.
      map r_pid rows = first_occurrences (map d_pid ?ds) \<and>
      (\<not> (too_large (completed_values r_TAT rows) \<or> too_large (completed_values r_WT rows) \<or>
         too_large (completed_values r_RT rows)) \<longrightarrow>
         (\<exists>a. compute_metrics_from_gantt ?ds ?g = Inr (rows, a) \<and>
            Inr (avg_tat a) = rounded_mean (completed_values r_TAT rows) \<and>
            Inr (avg_wt a) = rounded_mean (completed_values r_WT rows) \<and>
            Inr (avg_rt a) = rounded_mean (completed_values r_RT rows) \<and>
            close_to_mean (avg_tat a) (completed_values r_TAT rows) \<and>
            close_to_mean (avg_wt a) (completed_values r_WT rows) \<and>
            close_to_mean (avg_rt a) (completed_values r_RT rows)))"
    by blast
  with h v show ?thesis by (intro conjI)
qed

text \<open>
  C8, as stated, fails. A well-formed input may name a process \<open>idle\<close>: under \<^verbatim>\<open>fcfs\<close>
  the process \<open>idle\<close> (arrival 0, burst 3) runs from 0 to 3 under the label \<open>idle\<close>,
  although it is ready at 0 and no process is still to arrive. And a preempted process is
  lost (see C7): under \<^verbatim>\<open>sjf_preemptive\<close> the gap from 3 to 10 is idle although P1,
  which has arrived, has had 1 of its 5 ticks.
\<close>

theorem idle_label_without_gap:
  "well_formed [Proc ''idle'' 0 3 0] \<and>
   fcfs [Proc ''idle'' 0 3 0] = [(''idle'', 0, 3)] \<and>
   \<not> (\<exists>p\<in>set [Proc ''idle'' 0 3 0]. 0 < arrival p) \<and>
   well_formed [Proc ''P1'' 0 5 0, Proc ''P2'' 1 2 0, Proc ''P3'' 10 1 0] \<and>
   sjf_preemptive [Proc ''P1'' 0 5 0, Proc ''P2'' 1 2 0, Proc ''P3'' 10 1 0] =
     Some (Inr [(''P1'', 0, 1), (''P2'', 1, 3), (''idle'', 3, 10), (''P3'', 10, 11)]) \<and>
   arrival (Proc ''P1'' 0 5 0) \<le> 3 \<and>
   run_time ''P1'' [(''P1'', 0, 1), (''P2'', 1, 3)] < burst (Proc ''P1'' 0 5 0)"
  by code_simp

text \<open>
  C8, amended. For \<open>fcfs\<close>, \<open>sjf-np\<close>, \<open>rr\<close> (with a positive quantum) and \<open>priority-np\<close>
  and every well-formed input in which no pid is \<open>idle\<close>: an interval of the timeline has
  the actor \<open>idle\<close> if and only if, at its start, every process that has arrived has had
  its whole burst in the timeline before it, while some process has not arrived yet; an
  idle interval ends at the earliest arrival still to come; and every other interval
  belongs to a process that has arrived and has not had its whole burst, so the clock
  advances without a process only over such a gap.
\<close>

theorem idle_intervals_are_gaps:
  assumes "well_formed procs" and "''idle'' \<notin> pid ` set procs"
    and "k \<in> set list_policy_keys" and "k = ''rr'' \<longrightarrow> 0 < quantum"
  shows "\<exists>g. select_algorithm k quantum procs = Some (Inr g) \<and>
     (\<forall>before a s e after. g = before @ (a, s, e) # after \<longrightarrow>
        ((a = ''idle'') =
           ((\<forall>p\<in>set procs. arrival p \<le> s \<longrightarrow> run_time (pid p) before = burst p) \<and>
            (\<exists>p\<in>set procs. s < arrival p))) \<and>
        (a = ''idle'' \<longrightarrow> e = next_arrival procs s) \<and>
        (a \<noteq> ''idle'' \<longrightarrow>
           (\<exists>p\<in>set procs. pid p = a \<and> arrival p \<le> s \<and> run_time a before < burst p)))"
proof -
  from select_schedule [OF assms(1,3,4)] obtain g
    where g: "select_algorithm k quantum procs = Some (Inr g)" and s: "schedule procs g"
    by blast
  from s assms(2) have j: "timeline_justified procs [] g" by (simp add: schedule_def)
  have "((a = ''idle'') =
           ((\<forall>p\<in>set procs. arrival p \<le> s \<longrightarrow> run_time (pid p) before = burst p) \<and>
            (\<exists>p\<in>set procs. s < arrival p))) \<and>
        (a = ''idle'' \<longrightarrow> e = next_arrival procs s) \<and>
        (a \<noteq> ''idle'' \<longrightarrow>
           (\<exists>p\<in>set procs. pid p = a \<and> arrival p \<le> s \<and> run_time a before < burst p))"
    if "g = before @ (a, s, e) # after" for before a s e after
  proof -
    from justified_at [OF j that] have i: "interval_justified procs before (a, s, e)" by simp
    show ?thesis
    proof (cases "a = ''idle''")
      case True
      with i show ?thesis by simp
    next
      case False
      with i obtain p where p: "p \<in> set procs" "pid p = a" "arrival p \<le> s"
        "run_time a before < burst p" by auto
      then have "\<not> (\<forall>p\<in>set procs. arrival p \<le> s \<longrightarrow> run_time (pid p) before = burst p)"
        by force
      with False p show ?thesis by blast
    qed
  qed
  with g show ?thesis by blast
qed

theorem idle_intervals_are_gaps_witness:
  "well_formed [Proc ''P1'' 2 3 0, Proc ''P2'' 7 2 0] \<and>
   ''idle'' \<notin> pid ` set [Proc ''P1'' 2 3 0, Proc ''P2'' 7 2 0] \<and>
   ''sjf-np'' \<in> set list_policy_keys \<and>
   select_algorithm ''sjf-np'' 2 [Proc ''P1'' 2 3 0, Proc ''P2'' 7 2 0] =
     Some (Inr [(''idle'', 0, 2), (''P1'', 2, 5), (''idle'', 5, 7), (''P2'', 7, 9)]) \<and>
   (\<exists>g. select_algorithm ''sjf-np'' 2 [Proc ''P1'' 2 3 0, Proc ''P2'' 7 2 0] = Some (Inr g) \<and>
     (\<forall>before a s e after. g = before @ (a, s, e) # after \<longrightarrow>
        ((a = ''idle'') =
           ((\<forall>p\<in>set [Proc ''P1'' 2 3 0, Proc ''P2'' 7 2 0].
               arrival p \<le> s \<longrightarrow> run_time (pid p) before = burst p) \<and>
            (\<exists>p\<in>set [Proc ''P1'' 2 3 0, Proc ''P2'' 7 2 0]. s < arrival p))) \<and>
        (a = ''idle'' \<longrightarrow> e = next_arrival [Proc ''P1'' 2 3 0, Proc ''P2'' 7 2 0] s) \<and>
        (a \<noteq> ''idle'' \<longrightarrow>
           (\<exists>p\<in>set [Proc ''P1'' 2 3 0, Proc ''P2'' 7 2 0].
              pid p = a \<and> arrival p \<le> s \<and> run_time a before < burst p))))"
proof -
  have h1: "well_formed [Proc ''P1'' 2 3 0, Proc ''P2'' 7 2 0]"
    by (simp add: well_formed_def)
  have h2: "''idle'' \<notin> pid ` set [Proc ''P1'' 2 3 0, Proc ''P2'' 7 2 0]" by simp
  have h3: "''sjf-np'' \<in> set list_policy_keys" by (simp add: list_policy_keys_def)
  have h4: "''sjf-np'' = ''rr'' \<longrightarrow> (0::int) < 2" by simp
  have v: "select_algorithm ''sjf-np'' 2 [Proc ''P1'' 2 3 0, Proc ''P2'' 7 2 0] =
     Some (Inr [(''idle'', 0, 2), (''P1'', 2, 5), (''idle'', 5, 7), (''P2'', 7, 9)])"
    by code_simp
  show ?thesis
    by (rule conjI [OF h1 conjI [OF h2 conjI [OF h3 conjI [OF v
          idle_intervals_are_gaps [OF h1 h2 h3 h4]]]]])
qed




end
